theory Spec2Isabelle
  imports Main "HOL-Library.Monad_Syntax"
begin

section \<open>Python values: strings, exceptions, the interpreter's tables\<close>

text \<open>
  A Python \<^verbatim>\<open>str\<close> is a sequence of Unicode code points, and \<^verbatim>\<open>len\<close>, slicing and
  the \<^verbatim>\<open>re\<close> module all count code points. A string is therefore modelled as the list of its
  code points; \<open>asc\<close> writes an ASCII literal. The Korean literals of \<^verbatim>\<open>app.py\<close> are written
  as their code points.
\<close>

type_synonym pystr = "nat list"

definition asc :: "string \<Rightarrow> pystr" where
  "asc s = map of_char s"

text \<open>
  The exceptions that the modelled code can raise: \<^verbatim>\<open>ValueError\<close> and
  \<^verbatim>\<open>OverflowError\<close> from \<^verbatim>\<open>int\<close> and the datetime arithmetic, \<^verbatim>\<open>OSError\<close> and
  \<^verbatim>\<open>UnicodeEncodeError\<close> from writing a text file. \<^verbatim>\<open>crawl\<close> catches none of them
  (it catches only \<^verbatim>\<open>requests.RequestException\<close> around \<^verbatim>\<open>session.get\<close>, which is a
  case of \<open>http_result\<close> below); the bare \<^verbatim>\<open>except:\<close> clauses catch all of them.
\<close>

datatype exn = ValueError | OverflowError | OSError | UnicodeEncodeError

text \<open>
  What the interpreter and its platform decide and \<^verbatim>\<open>app.py\<close> does not:
  \<^item> \<open>nd_zeros\<close>: the code points of the zero digits of the Unicode category Nd beyond ASCII
    (the table grows with the Unicode version the interpreter ships). Every Nd digit lies in
    a block of ten consecutive code points in ascending value, so the zeros determine the
    table. \<^verbatim>\<open>\d\<close> of a \<^verbatim>\<open>str\<close> pattern matches exactly the Nd code points, and
    \<^verbatim>\<open>int\<close> reads them with their values.
  \<^item> \<open>max_str_digits\<close>: \<^verbatim>\<open>sys.get_int_max_str_digits()\<close>, 0 for no limit
    (\<^verbatim>\<open>int\<close> raises ValueError on a longer digit string; the limit never applies to
    640 digits or fewer).
  \<^item> \<open>pad_year\<close>: whether the platform's \<^verbatim>\<open>strftime\<close> zero-fills \<^verbatim>\<open>%Y\<close> to four digits
    (glibc does not).
\<close>

record platform =
  nd_zeros :: "nat list"
  max_str_digits :: nat
  pad_year :: bool

text \<open>
  \<^verbatim>\<open>str.isspace\<close>, which is also \<^verbatim>\<open>\s\<close> of a \<^verbatim>\<open>str\<close> pattern and what
  \<^verbatim>\<open>str.strip()\<close> and \<^verbatim>\<open>str.split()\<close> remove.
\<close>

definition is_space :: "nat \<Rightarrow> bool" where
  "is_space c =
     ((9 \<le> c \<and> c \<le> 13) \<or> (28 \<le> c \<and> c \<le> 32) \<or> c = 133 \<or> c = 160 \<or> c = 5760
      \<or> (8192 \<le> c \<and> c \<le> 8202) \<or> c = 8232 \<or> c = 8233 \<or> c = 8239 \<or> c = 8287
      \<or> c = 12288)"

text \<open>
  The value of a decimal digit. ASCII is fixed; the Hangul syllables (U+AC00 to U+D7A3) are
  letters and the blanks are separators or controls in every Unicode version; everything
  else is looked up in the table.
\<close>

definition digit_value :: "platform \<Rightarrow> nat \<Rightarrow> nat option" where
  "digit_value P c =
     (if c < 128 then (if 48 \<le> c \<and> c \<le> 57 then Some (c - 48) else None)
      else if (44032 \<le> c \<and> c \<le> 55203) \<or> is_space c then None
      else (case find (\<lambda>z. z \<le> c \<and> c < z + 10) (nd_zeros P) of
              None \<Rightarrow> None
            | Some z \<Rightarrow> Some (c - z)))"

definition is_digit :: "platform \<Rightarrow> nat \<Rightarrow> bool" where
  "is_digit P c = (digit_value P c \<noteq> None)"

definition digit_of :: "platform \<Rightarrow> nat \<Rightarrow> int" where
  "digit_of P c = (case digit_value P c of None \<Rightarrow> 0 | Some v \<Rightarrow> int v)"

text \<open>
  \<^verbatim>\<open>int(s)\<close> for the strings the code passes to it: groups matched by \<^verbatim>\<open>\d+\<close> or
  \<^verbatim>\<open>\d{1,2}\<close>, so non-empty runs of digits. (Python's \<^verbatim>\<open>int\<close> also reads signs, blanks and
  underscores; no call of \<^verbatim>\<open>app.py\<close> passes them, and here they are a ValueError.)
\<close>

definition dec_value :: "platform \<Rightarrow> pystr \<Rightarrow> int" where
  "dec_value P s = foldl (\<lambda>a c. 10 * a + digit_of P c) 0 s"

definition py_int :: "platform \<Rightarrow> pystr \<Rightarrow> exn + int" where
  "py_int P s =
     (if s = [] \<or> \<not> list_all (is_digit P) s then Inl ValueError
      else if max_str_digits P \<noteq> 0 \<and> max (max_str_digits P) 640 < length s then Inl ValueError
      else Inr (dec_value P s))"

text \<open>\<^verbatim>\<open>str(i)\<close> and the format \<^verbatim>\<open>{i:02d}\<close> of an int.\<close>

fun nat_digits :: "nat \<Rightarrow> pystr" where
  "nat_digits n = (if n < 10 then [48 + n] else nat_digits (n div 10) @ [48 + n mod 10])"

declare nat_digits.simps [simp del]

definition py_str_int :: "int \<Rightarrow> pystr" where
  "py_str_int i = (if i < 0 then 45 # nat_digits (nat (- i)) else nat_digits (nat i))"

definition fmt_02d :: "int \<Rightarrow> pystr" where
  "fmt_02d i = (let s = py_str_int i in if length s < 2 then 48 # s else s)"

text \<open>Sequencing of computations that may raise: the first exception propagates.\<close>

definition bind_exn :: "exn + 'a \<Rightarrow> ('a \<Rightarrow> exn + 'b) \<Rightarrow> exn + 'b" where
  "bind_exn x f = (case x of Inl e \<Rightarrow> Inl e | Inr v \<Rightarrow> f v)"

text \<open>\<^verbatim>\<open>str.strip()\<close> with no argument.\<close>

definition py_lstrip :: "pystr \<Rightarrow> pystr" where
  "py_lstrip s = dropWhile is_space s"

definition py_rstrip :: "pystr \<Rightarrow> pystr" where
  "py_rstrip s = rev (dropWhile is_space (rev s))"

definition py_strip :: "pystr \<Rightarrow> pystr" where
  "py_strip s = py_rstrip (py_lstrip s)"

section \<open>The datetime module\<close>

text \<open>
  A \<^verbatim>\<open>datetime\<close> is modelled by the microseconds from 0001-01-01T00:00:00 to its own
  calendar fields (for an aware value, its fields in its own zone: arithmetic and
  \<^verbatim>\<open>strftime\<close> of an aware value work on these fields). The type holds the years 1 to
  9999. A \<^verbatim>\<open>timedelta\<close> is a number of microseconds whose days have magnitude at most
  999999999. Both constructors and the subtraction raise OverflowError out of range.
  A reading of the machine's clock is the instant in UTC and the offset of the machine's
  own time zone; \<^verbatim>\<open>datetime.now(tz)\<close> uses the second only when \<open>tz\<close> is None.
\<close>

record clock =
  instant :: int
  host_utcoffset :: int

definition us_per_day :: int where
  "us_per_day = 86400000000"

definition in_datetime_range :: "int \<Rightarrow> bool" where
  "in_datetime_range x = (0 \<le> x \<and> x < 3652059 * 86400000000)"

definition KST :: int where
  "KST = 9 * 3600000000"

definition datetime_now :: "clock \<Rightarrow> int option \<Rightarrow> exn + int" where
  "datetime_now clk tz =
     (if in_datetime_range (instant clk + (case tz of None \<Rightarrow> host_utcoffset clk | Some off \<Rightarrow> off))
      then Inr (instant clk + (case tz of None \<Rightarrow> host_utcoffset clk | Some off \<Rightarrow> off))
      else Inl OverflowError)"

text \<open>\<^verbatim>\<open>timedelta(days=d, hours=h, minutes=m)\<close>.\<close>

definition timedelta_us :: "int \<Rightarrow> int \<Rightarrow> int \<Rightarrow> int" where
  "timedelta_us d h m = ((d * 24 + h) * 60 + m) * 60000000"

definition timedelta :: "int \<Rightarrow> int \<Rightarrow> int \<Rightarrow> exn + int" where
  "timedelta d h m =
     (if - 999999999 \<le> timedelta_us d h m div us_per_day
         \<and> timedelta_us d h m div us_per_day \<le> 999999999
      then Inr (timedelta_us d h m) else Inl OverflowError)"

definition datetime_sub :: "int \<Rightarrow> int \<Rightarrow> exn + int" where
  "datetime_sub dt td = (if in_datetime_range (dt - td) then Inr (dt - td) else Inl OverflowError)"

text \<open>
  The calendar date of a proleptic Gregorian ordinal (0001-01-01 is day 1), by the usual
  computation on eras of 400 years that start on the first of March.
\<close>

definition ymd_of_mp :: "int \<Rightarrow> int \<Rightarrow> int \<Rightarrow> int \<times> int \<times> int" where
  "ymd_of_mp y doy mp =
     (if mp < 10 then (y, mp + 3, doy - (153 * mp + 2) div 5 + 1)
      else (y + 1, mp - 9, doy - (153 * mp + 2) div 5 + 1))"

definition ymd_of_doy :: "int \<Rightarrow> int \<Rightarrow> int \<times> int \<times> int" where
  "ymd_of_doy y doy = ymd_of_mp y doy ((5 * doy + 2) div 153)"

definition ymd_of_yoe :: "int \<Rightarrow> int \<Rightarrow> int \<Rightarrow> int \<times> int \<times> int" where
  "ymd_of_yoe era doe yoe =
     ymd_of_doy (yoe + era * 400) (doe - (365 * yoe + yoe div 4 - yoe div 100))"

definition ymd_of_doe :: "int \<Rightarrow> int \<Rightarrow> int \<times> int \<times> int" where
  "ymd_of_doe era doe =
     ymd_of_yoe era doe ((doe - doe div 1460 + doe div 36524 - doe div 146096) div 365)"

definition ymd_of_ordinal :: "int \<Rightarrow> int \<times> int \<times> int" where
  "ymd_of_ordinal n = ymd_of_doe ((n + 305) div 146097) ((n + 305) mod 146097)"

text \<open>
  The day a datetime falls on (its time of day dropped), and \<^verbatim>\<open>strftime("%Y.%m.%d")\<close>:
  month and day with two digits, the year as the platform writes it.
\<close>

definition date_of :: "int \<Rightarrow> int \<times> int \<times> int" where
  "date_of dt = ymd_of_ordinal (dt div us_per_day + 1)"

definition year_str :: "platform \<Rightarrow> int \<Rightarrow> pystr" where
  "year_str P y =
     (if pad_year P then replicate (4 - length (py_str_int y)) 48 @ py_str_int y
      else py_str_int y)"

definition fmt_Ymd :: "platform \<Rightarrow> int \<times> int \<times> int \<Rightarrow> pystr" where
  "fmt_Ymd P ymd = (case ymd of (y, m, d) \<Rightarrow> year_str P y @ asc ''.'' @ fmt_02d m @ asc ''.'' @ fmt_02d d)"

definition strftime_Ymd :: "platform \<Rightarrow> int \<Rightarrow> pystr" where
  "strftime_Ymd P dt = fmt_Ymd P (date_of dt)"

text \<open>
  A concrete platform for the worked examples: CPython 3.11 on glibc (Unicode 14: 65 blocks
  of Nd digits beyond ASCII, the default limit of 4300 digits, \<^verbatim>\<open>%Y\<close> not zero-filled).
\<close>

definition cpython311 :: platform where
  "cpython311 = \<lparr>nd_zeros = [1632, 1776, 1984, 2406, 2534, 2662, 2790, 2918, 3046, 3174, 3302,
      3430, 3558, 3664, 3792, 3872, 4160, 4240, 6112, 6160, 6470, 6608, 6784, 6800, 6992, 7088,
      7232, 7248, 42528, 43216, 43264, 43472, 43504, 43600, 44016, 65296, 66720, 68912, 69734,
      69872, 69942, 70096, 70384, 70736, 70864, 71248, 71360, 71472, 71904, 72016, 72784, 73040,
      73120, 92768, 92864, 93008, 120782, 120792, 120802, 120812, 120822, 123200, 123632, 125264,
      130032],
    max_str_digits = 4300, pad_year = False\<rparr>"

section \<open>Regular expressions\<close>

text \<open>
  \<^verbatim>\<open>re.search\<close> tries the pattern at every position from the left and returns the first
  match; at one position the pattern is matched by backtracking, a greedy repetition
  offering its longest run first. \<open>re_search\<close> is the scan over the positions,
  \<open>first_some\<close> the backtracking over the alternatives of one repetition, \<open>lit\<close> a
  literal, \<open>take_digits\<close> the repetition \<^verbatim>\<open>\d{n}\<close>, and \<open>greedy_splits\<close> the
  alternatives of a greedy repetition of a character class.
\<close>

fun re_search :: "(pystr \<Rightarrow> 'a option) \<Rightarrow> pystr \<Rightarrow> 'a option" where
  "re_search m [] = m []"
| "re_search m (c # cs) = (case m (c # cs) of Some r \<Rightarrow> Some r | None \<Rightarrow> re_search m cs)"

fun first_some :: "('a \<Rightarrow> 'b option) \<Rightarrow> 'a list \<Rightarrow> 'b option" where
  "first_some f [] = None"
| "first_some f (x # xs) = (case f x of Some r \<Rightarrow> Some r | None \<Rightarrow> first_some f xs)"

fun lit :: "pystr \<Rightarrow> pystr \<Rightarrow> pystr option" where
  "lit [] s = Some s"
| "lit (p # ps) [] = None"
| "lit (p # ps) (c # cs) = (if p = c then lit ps cs else None)"

fun take_digits :: "platform \<Rightarrow> nat \<Rightarrow> pystr \<Rightarrow> (pystr \<times> pystr) option" where
  "take_digits P 0 s = Some ([], s)"
| "take_digits P (Suc n) [] = None"
| "take_digits P (Suc n) (c # cs) =
     (if is_digit P c
      then (case take_digits P n cs of None \<Rightarrow> None | Some (ds, r) \<Rightarrow> Some (c # ds, r))
      else None)"

fun greedy_splits :: "(nat \<Rightarrow> bool) \<Rightarrow> pystr \<Rightarrow> (pystr \<times> pystr) list" where
  "greedy_splits p [] = [([], [])]"
| "greedy_splits p (c # cs) =
     (if p c then map (\<lambda>(a, r). (c # a, r)) (greedy_splits p cs) @ [([], c # cs)]
      else [([], c # cs)])"

text \<open>\<^verbatim>\<open>\d{1,2}\<close>: two digits first, then one.\<close>

definition digits_1_2 :: "platform \<Rightarrow> pystr \<Rightarrow> (pystr \<times> pystr) list" where
  "digits_1_2 P s =
     (case take_digits P 2 s of None \<Rightarrow> [] | Some x \<Rightarrow> [x]) @
     (case take_digits P 1 s of None \<Rightarrow> [] | Some x \<Rightarrow> [x])"

section \<open>The date embedded in a URL\<close>

text \<open>
  The three patterns of \<^verbatim>\<open>_extract_date_from_url\<close>, each matched at the head of a string:
  \<^verbatim>\<open>/(20\d{2})(\d{2})(\d{2})/\<close>, \<^verbatim>\<open>/(20\d{2})/(\d{1,2})/(\d{1,2})/\<close> and
  \<^verbatim>\<open>/(20\d{2})(\d{2})(\d{2})\<close>. The result is the three groups.
\<close>

definition url_pat3_at :: "platform \<Rightarrow> pystr \<Rightarrow> (pystr \<times> pystr \<times> pystr \<times> pystr) option" where
  "url_pat3_at P s = do {
     r0 \<leftarrow> lit (asc ''/20'') s;
     (yy, r1) \<leftarrow> take_digits P 2 r0;
     (mo, r2) \<leftarrow> take_digits P 2 r1;
     (d, r3) \<leftarrow> take_digits P 2 r2;
     Some (asc ''20'' @ yy, mo, d, r3)
   }"

definition url_pat1_at :: "platform \<Rightarrow> pystr \<Rightarrow> (pystr \<times> pystr \<times> pystr) option" where
  "url_pat1_at P s = do {
     (y, mo, d, r3) \<leftarrow> url_pat3_at P s;
     _ \<leftarrow> lit (asc ''/'') r3;
     Some (y, mo, d)
   }"

definition url_pat2_at :: "platform \<Rightarrow> pystr \<Rightarrow> (pystr \<times> pystr \<times> pystr) option" where
  "url_pat2_at P s = do {
     r0 \<leftarrow> lit (asc ''/20'') s;
     (yy, r1) \<leftarrow> take_digits P 2 r0;
     r2 \<leftarrow> lit (asc ''/'') r1;
     first_some (\<lambda>(mo, r3). do {
         r4 \<leftarrow> lit (asc ''/'') r3;
         first_some (\<lambda>(d, r5). do {
             _ \<leftarrow> lit (asc ''/'') r5;
             Some (asc ''20'' @ yy, mo, d)
           }) (digits_1_2 P r4)
       }) (digits_1_2 P r2)
   }"

text \<open>
  The body of the \<^verbatim>\<open>try\<close> block, with what it can raise, and the function: the bare
  \<^verbatim>\<open>except: pass\<close> turns every exception into the final \<^verbatim>\<open>return ""\<close>.
\<close>

definition dotted :: "pystr \<Rightarrow> pystr \<Rightarrow> pystr \<Rightarrow> pystr" where
  "dotted y mo d = y @ asc ''.'' @ mo @ asc ''.'' @ d"

definition extract_date_from_url_body :: "platform \<Rightarrow> pystr \<Rightarrow> exn + pystr" where
  "extract_date_from_url_body P url =
     (case re_search (url_pat1_at P) url of
        Some (y, mo, d) \<Rightarrow> Inr (dotted y mo d)
      | None \<Rightarrow>
         (case re_search (url_pat2_at P) url of
            Some (y, mo, d) \<Rightarrow>
              (case py_int P mo of
                 Inl e \<Rightarrow> Inl e
               | Inr mi \<Rightarrow>
                  (case py_int P d of
                     Inl e \<Rightarrow> Inl e
                   | Inr di \<Rightarrow> Inr (dotted y (fmt_02d mi) (fmt_02d di))))
          | None \<Rightarrow>
             (case re_search (url_pat3_at P) url of
                Some (y, mo, d, r) \<Rightarrow> Inr (dotted y mo d)
              | None \<Rightarrow> Inr [])))"

definition extract_date_from_url :: "platform \<Rightarrow> pystr \<Rightarrow> pystr" where
  "extract_date_from_url P url =
     (case extract_date_from_url_body P url of Inl e \<Rightarrow> [] | Inr r \<Rightarrow> r)"

section \<open>Relative dates\<close>

text \<open>
  The Korean tokens of \<^verbatim>\<open>REL_PAT\<close> and \<^verbatim>\<open>_normalize_relative_date\<close>: the units minute
  (U+BD84), hour (U+C2DC U+AC04) and day (U+C77C), the word for "ago" (U+C804), and the
  words for yesterday (U+C5B4 U+C81C) and today (U+C624 U+B298).
\<close>

definition tok_bun :: pystr where "tok_bun = [48516]"
definition tok_sigan :: pystr where "tok_sigan = [49884, 44036]"
definition tok_il :: pystr where "tok_il = [51068]"
definition tok_jeon :: pystr where "tok_jeon = [51204]"
definition tok_eoje :: pystr where "tok_eoje = [50612, 51228]"
definition tok_oneul :: pystr where "tok_oneul = [50724, 45720]"

text \<open>\<^verbatim>\<open>needle in hay\<close> for strings.\<close>

definition contains :: "pystr \<Rightarrow> pystr \<Rightarrow> bool" where
  "contains needle hay = (re_search (lit needle) hay \<noteq> None)"

text \<open>
  \<^verbatim>\<open>REL_PAT\<close>, the pattern \<^verbatim>\<open>(\d+)\s*(U+BD84|U+C2DC U+AC04|U+C77C)\s*U+C804\<close>, matched at
  the head of a string; the result is the two groups.
\<close>

definition rel_pat_at :: "platform \<Rightarrow> pystr \<Rightarrow> (pystr \<times> pystr) option" where
  "rel_pat_at P s =
     first_some (\<lambda>(n, r1).
         if n = [] then None
         else first_some (\<lambda>(w1, r2).
             first_some (\<lambda>unit. do {
                 r3 \<leftarrow> lit unit r2;
                 first_some (\<lambda>(w2, r4). do {
                     _ \<leftarrow> lit tok_jeon r4;
                     Some (n, unit)
                   }) (greedy_splits is_space r3)
               }) [tok_bun, tok_sigan, tok_il])
           (greedy_splits is_space r1))
       (greedy_splits (is_digit P) s)"

text \<open>
  \<^verbatim>\<open>_normalize_relative_date\<close>. The clock is read once, before the text is looked at;
  nothing here is inside a \<^verbatim>\<open>try\<close>, so what \<^verbatim>\<open>int\<close>, \<^verbatim>\<open>timedelta\<close> and the
  subtraction raise leaves the function.
\<close>

definition normalize_relative_date :: "platform \<Rightarrow> clock \<Rightarrow> pystr \<Rightarrow> exn + pystr" where
  "normalize_relative_date P clk text =
     bind_exn (datetime_now clk (Some KST)) (\<lambda>now.
       case re_search (rel_pat_at P) (py_strip text) of
         Some (ds, unit) \<Rightarrow>
           bind_exn (py_int P ds) (\<lambda>n.
             bind_exn (if unit = tok_bun then timedelta 0 0 n
                       else if unit = tok_sigan then timedelta 0 n 0
                       else timedelta n 0 0) (\<lambda>td.
               bind_exn (datetime_sub now td) (\<lambda>dt. Inr (strftime_Ymd P dt))))
       | None \<Rightarrow>
           if contains tok_eoje (py_strip text)
           then bind_exn (timedelta 1 0 0) (\<lambda>td.
                  bind_exn (datetime_sub now td) (\<lambda>dt. Inr (strftime_Ymd P dt)))
           else if contains tok_oneul (py_strip text) then Inr (strftime_Ymd P now)
           else Inr [])"

text \<open>
  The phrases the pattern looks for, stated on the string itself: \<open>rel_phrase P ds u x\<close>
  says that \<open>x\<close> is a number \<open>ds\<close>, optional blanks, a unit \<open>u\<close>, optional blanks and the
  word for "ago"; \<open>occurs_in x s\<close> that \<open>x\<close> is a substring of \<open>s\<close>; and
  \<open>rel_duration u n\<close> is the length of \<open>n\<close> units in microseconds, as the
  \<^verbatim>\<open>timedelta\<close> of that branch has it.
\<close>

definition occurs_in :: "pystr \<Rightarrow> pystr \<Rightarrow> bool" where
  "occurs_in x s = (\<exists>a b. s = a @ x @ b)"

definition rel_phrase :: "platform \<Rightarrow> pystr \<Rightarrow> pystr \<Rightarrow> pystr \<Rightarrow> bool" where
  "rel_phrase P ds u x =
     (\<exists>ws1 ws2. x = ds @ ws1 @ u @ ws2 @ tok_jeon
        \<and> ds \<noteq> [] \<and> list_all (is_digit P) ds \<and> list_all is_space ws1 \<and> list_all is_space ws2
        \<and> u \<in> {tok_bun, tok_sigan, tok_il})"

definition rel_duration :: "pystr \<Rightarrow> int \<Rightarrow> int" where
  "rel_duration u n =
     (if u = tok_bun then timedelta_us 0 0 n
      else if u = tok_sigan then timedelta_us 0 n 0
      else timedelta_us n 0 0)"


text \<open>A reading of the clock for the worked examples: 2024-03-07 12:00 in UTC+9.\<close>

definition clock_example :: clock where
  "clock_example = \<lparr>instant = 63845377200000000, host_utcoffset = 0\<rparr>"


text \<open>
  The shapes of a URL that the patterns look for, stated on the string itself: a slash and
  a run \<^verbatim>\<open>20YYMMDD\<close>; the same closed by a slash; and the path segments
  \<^verbatim>\<open>/20YY/M/D/\<close> with one or two digits for month and day.
\<close>

definition year20 :: "platform \<Rightarrow> pystr \<Rightarrow> bool" where
  "year20 P y = (\<exists>yy. y = asc ''20'' @ yy \<and> length yy = 2 \<and> list_all (is_digit P) yy)"

definition two_digits :: "platform \<Rightarrow> pystr \<Rightarrow> bool" where
  "two_digits P ds = (length ds = 2 \<and> list_all (is_digit P) ds)"

definition one_or_two_digits :: "platform \<Rightarrow> pystr \<Rightarrow> bool" where
  "one_or_two_digits P ds = ((length ds = 1 \<or> length ds = 2) \<and> list_all (is_digit P) ds)"

definition url_has_compact :: "platform \<Rightarrow> pystr \<Rightarrow> pystr \<Rightarrow> pystr \<Rightarrow> pystr \<Rightarrow> bool" where
  "url_has_compact P url y mo d =
     (\<exists>pre rest. url = pre @ asc ''/'' @ y @ mo @ d @ rest
        \<and> year20 P y \<and> two_digits P mo \<and> two_digits P d)"

definition url_has_compact_slash :: "platform \<Rightarrow> pystr \<Rightarrow> pystr \<Rightarrow> pystr \<Rightarrow> pystr \<Rightarrow> bool" where
  "url_has_compact_slash P url y mo d =
     (\<exists>pre rest. url = pre @ asc ''/'' @ y @ mo @ d @ asc ''/'' @ rest
        \<and> year20 P y \<and> two_digits P mo \<and> two_digits P d)"

definition url_has_segments :: "platform \<Rightarrow> pystr \<Rightarrow> pystr \<Rightarrow> pystr \<Rightarrow> pystr \<Rightarrow> bool" where
  "url_has_segments P url y mo d =
     (\<exists>pre rest. url = pre @ asc ''/'' @ y @ asc ''/'' @ mo @ asc ''/'' @ d @ asc ''/'' @ rest
        \<and> year20 P y \<and> one_or_two_digits P mo \<and> one_or_two_digits P d)"

text \<open>
  The same shapes at a position of the URL: \<open>compact_slash_at P url i y mo d\<close> says that
  the run closed by a slash, with the year \<open>y\<close>, the month \<open>mo\<close> and the day \<open>d\<close>,
  starts at index \<open>i\<close> of \<open>url\<close> (with its leading slash); likewise for the segments and
  for the run with no closing slash.
\<close>

definition compact_slash_at :: "platform \<Rightarrow> pystr \<Rightarrow> nat \<Rightarrow> pystr \<Rightarrow> pystr \<Rightarrow> pystr \<Rightarrow> bool" where
  "compact_slash_at P url i y mo d =
     (\<exists>rest. drop i url = asc ''/'' @ y @ mo @ d @ asc ''/'' @ rest
        \<and> year20 P y \<and> two_digits P mo \<and> two_digits P d)"

definition segments_at :: "platform \<Rightarrow> pystr \<Rightarrow> nat \<Rightarrow> pystr \<Rightarrow> pystr \<Rightarrow> pystr \<Rightarrow> bool" where
  "segments_at P url i y mo d =
     (\<exists>rest. drop i url = asc ''/'' @ y @ asc ''/'' @ mo @ asc ''/'' @ d @ asc ''/'' @ rest
        \<and> year20 P y \<and> one_or_two_digits P mo \<and> one_or_two_digits P d)"

definition compact_at :: "platform \<Rightarrow> pystr \<Rightarrow> nat \<Rightarrow> pystr \<Rightarrow> pystr \<Rightarrow> pystr \<Rightarrow> bool" where
  "compact_at P url i y mo d =
     (\<exists>rest. drop i url = asc ''/'' @ y @ mo @ d @ rest
        \<and> year20 P y \<and> two_digits P mo \<and> two_digits P d)"

section \<open>Facts about the matcher\<close>

lemma lit_Some: "lit p s = Some r \<longleftrightarrow> s = p @ r"
  by (induction p s rule: lit.induct) auto

lemma take_digits_SomeD:
  "take_digits P n s = Some (ds, r) \<Longrightarrow> s = ds @ r \<and> length ds = n \<and> list_all (is_digit P) ds"
  by (induction P n s arbitrary: ds rule: take_digits.induct) (auto split: if_splits option.splits)

lemma take_digits_SomeI:
  "list_all (is_digit P) ds \<Longrightarrow> take_digits P (length ds) (ds @ r) = Some (ds, r)"
  by (induction ds) auto

lemma take_digits_Some:
  "take_digits P n s = Some (ds, r) \<longleftrightarrow> s = ds @ r \<and> length ds = n \<and> list_all (is_digit P) ds"
  using take_digits_SomeD take_digits_SomeI by blast

lemma take_digits_1:
  "take_digits P 1 s = (case s of [] \<Rightarrow> None | a # r \<Rightarrow> if is_digit P a then Some ([a], r) else None)"
  by (cases s) (simp_all add: numeral_eq_Suc)

lemma take_digits_2:
  "take_digits P 2 s =
     (case s of a # b # r \<Rightarrow> if is_digit P a \<and> is_digit P b then Some ([a, b], r) else None
      | _ \<Rightarrow> None)"
  by (auto simp: numeral_2_eq_2 split: list.splits)

lemma re_search_Some: "re_search m s = Some r \<Longrightarrow> \<exists>pre suf. s = pre @ suf \<and> m suf = Some r"
proof (induction s)
  case Nil
  then show ?case by simp
next
  case (Cons c cs)
  show ?case
  proof (cases "m (c # cs)")
    case None
    with Cons obtain pre suf where "cs = pre @ suf" "m suf = Some r" by auto
    then have "c # cs = (c # pre) @ suf \<and> m suf = Some r" by simp
    then show ?thesis by blast
  next
    case (Some a)
    with Cons.prems have "c # cs = [] @ (c # cs) \<and> m (c # cs) = Some r" by simp
    then show ?thesis by blast
  qed
qed

lemma re_search_NoneD: "re_search m (pre @ suf) = None \<Longrightarrow> m suf = None"
proof (induction pre)
  case Nil
  then show ?case by (cases suf) (simp_all split: option.splits)
next
  case (Cons p ps)
  then show ?case by (simp split: option.splits)
qed

lemma re_search_NoneI: "(\<And>pre suf. s = pre @ suf \<Longrightarrow> m suf = None) \<Longrightarrow> re_search m s = None"
proof (induction s)
  case Nil
  then show ?case by simp
next
  case (Cons c cs)
  have 1: "m (c # cs) = None" using Cons.prems [of "[]" "c # cs"] by simp
  have "re_search m cs = None"
  proof (rule Cons.IH)
    fix pre suf assume "cs = pre @ suf"
    then show "m suf = None" using Cons.prems [of "c # pre" suf] by simp
  qed
  with 1 show ?case by simp
qed

lemma lit_append: "lit p (p @ r) = Some r"
  by (simp add: lit_Some)

lemma first_some_SomeD: "first_some f xs = Some r \<Longrightarrow> \<exists>x\<in>set xs. f x = Some r"
  by (induction xs) (auto split: option.splits)

lemma first_some_None: "first_some f xs = None \<longleftrightarrow> (\<forall>x\<in>set xs. f x = None)"
  by (induction xs) (auto split: option.splits)

lemma first_some_neq_None: "x \<in> set xs \<Longrightarrow> f x \<noteq> None \<Longrightarrow> first_some f xs \<noteq> None"
  by (simp add: first_some_None) blast

lemma digits_1_2_set:
  "(ds, r) \<in> set (digits_1_2 P s) \<longleftrightarrow> s = ds @ r \<and> one_or_two_digits P ds"
proof -
  have "(ds, r) \<in> set (digits_1_2 P s) \<longleftrightarrow>
        take_digits P 2 s = Some (ds, r) \<or> take_digits P 1 s = Some (ds, r)"
    by (auto simp: digits_1_2_def split: option.splits)
  then show ?thesis
    by (auto simp: take_digits_Some one_or_two_digits_def)
qed

lemma url_pat3_at_Some:
  "url_pat3_at P s = Some (y, mo, d, r) \<longleftrightarrow>
     s = asc ''/'' @ y @ mo @ d @ r \<and> year20 P y \<and> two_digits P mo \<and> two_digits P d"
  unfolding url_pat3_at_def year20_def two_digits_def
  by (auto simp: bind_eq_Some_conv lit_Some take_digits_Some asc_def)

lemma url_pat1_at_Some:
  "url_pat1_at P s = Some (y, mo, d) \<longleftrightarrow>
     (\<exists>r. s = asc ''/'' @ y @ mo @ d @ asc ''/'' @ r \<and> year20 P y \<and> two_digits P mo \<and> two_digits P d)"
  unfolding url_pat1_at_def
  by (auto simp: bind_eq_Some_conv lit_Some url_pat3_at_Some)

lemma url_pat2_at_SomeD:
  assumes "url_pat2_at P s = Some (y, mo, d)"
  shows "\<exists>r. s = asc ''/'' @ y @ asc ''/'' @ mo @ asc ''/'' @ d @ asc ''/'' @ r
           \<and> year20 P y \<and> one_or_two_digits P mo \<and> one_or_two_digits P d"
proof -
  from assms obtain r0 yy r1 r2 where
    r0: "lit (asc ''/20'') s = Some r0" and
    yy: "take_digits P 2 r0 = Some (yy, r1)" and
    r2: "lit (asc ''/'') r1 = Some r2" and
    fs: "first_some (\<lambda>(mo, r3). do {
         r4 \<leftarrow> lit (asc ''/'') r3;
         first_some (\<lambda>(d, r5). do {
             _ \<leftarrow> lit (asc ''/'') r5;
             Some (asc ''20'' @ yy, mo, d)
           }) (digits_1_2 P r4)
       }) (digits_1_2 P r2) = Some (y, mo, d)"
    unfolding url_pat2_at_def by (auto simp: bind_eq_Some_conv)
  from first_some_SomeD [OF fs] obtain mo' r3 r4 where
    mo': "(mo', r3) \<in> set (digits_1_2 P r2)" and
    r4: "lit (asc ''/'') r3 = Some r4" and
    fs2: "first_some (\<lambda>(d, r5). do {
             _ \<leftarrow> lit (asc ''/'') r5;
             Some (asc ''20'' @ yy, mo', d)
           }) (digits_1_2 P r4) = Some (y, mo, d)"
    by (auto simp: bind_eq_Some_conv)
  from first_some_SomeD [OF fs2] obtain d' r5 r6 where
    d': "(d', r5) \<in> set (digits_1_2 P r4)" and
    r6: "lit (asc ''/'') r5 = Some r6" and
    eq: "y = asc ''20'' @ yy" "mo = mo'" "d = d'"
    by (auto simp: bind_eq_Some_conv)
  have "s = asc ''/'' @ y @ asc ''/'' @ mo @ asc ''/'' @ d @ asc ''/'' @ r6"
    using r0 yy r2 mo' r4 d' r6 eq
    by (simp add: lit_Some take_digits_Some digits_1_2_set asc_def)
  moreover have "year20 P y"
    using yy eq by (auto simp: year20_def take_digits_Some)
  moreover have "one_or_two_digits P mo" "one_or_two_digits P d"
    using mo' d' eq by (simp_all add: digits_1_2_set)
  ultimately show ?thesis by blast
qed

lemma url_pat2_at_shape:
  assumes "year20 P y" "one_or_two_digits P mo" "one_or_two_digits P d"
  shows "url_pat2_at P (asc ''/'' @ y @ asc ''/'' @ mo @ asc ''/'' @ d @ asc ''/'' @ r) \<noteq> None"
proof -
  from assms(1) obtain yy where y: "y = asc ''20'' @ yy" and yy: "length yy = 2" "list_all (is_digit P) yy"
    by (auto simp: year20_def)
  let ?s = "asc ''/'' @ y @ asc ''/'' @ mo @ asc ''/'' @ d @ asc ''/'' @ r"
  let ?G = "\<lambda>mo. (\<lambda>(d, r5). do {
             _ \<leftarrow> lit (asc ''/'') r5;
             Some (asc ''20'' @ yy, mo, d)
           })"
  let ?F = "\<lambda>(mo, r3). do {
         r4 \<leftarrow> lit (asc ''/'') r3;
         first_some (?G mo) (digits_1_2 P r4)
       }"
  have 1: "lit (asc ''/20'') ?s = Some (yy @ asc ''/'' @ mo @ asc ''/'' @ d @ asc ''/'' @ r)"
    by (simp add: lit_Some y asc_def)
  have 2: "take_digits P 2 (yy @ asc ''/'' @ mo @ asc ''/'' @ d @ asc ''/'' @ r)
             = Some (yy, asc ''/'' @ mo @ asc ''/'' @ d @ asc ''/'' @ r)"
    using take_digits_SomeI [OF yy(2)] yy(1) by simp
  have 3: "lit (asc ''/'') (asc ''/'' @ mo @ asc ''/'' @ d @ asc ''/'' @ r)
             = Some (mo @ asc ''/'' @ d @ asc ''/'' @ r)"
    by (rule lit_append)
  have eq: "url_pat2_at P ?s = first_some ?F (digits_1_2 P (mo @ asc ''/'' @ d @ asc ''/'' @ r))"
    unfolding url_pat2_at_def by (simp only: 1 2 3 bind.bind_lunit prod.case)
  have d_in: "(d, asc ''/'' @ r) \<in> set (digits_1_2 P (d @ asc ''/'' @ r))"
    using assms(3) by (simp add: digits_1_2_set)
  have "?G mo (d, asc ''/'' @ r) \<noteq> None"
    by (simp add: lit_append)
  with d_in have g: "first_some (?G mo) (digits_1_2 P (d @ asc ''/'' @ r)) \<noteq> None"
    by (rule first_some_neq_None)
  have mo_in: "(mo, asc ''/'' @ d @ asc ''/'' @ r) \<in> set (digits_1_2 P (mo @ asc ''/'' @ d @ asc ''/'' @ r))"
    using assms(2) by (simp add: digits_1_2_set)
  have "lit (asc ''/'') (asc ''/'' @ d @ asc ''/'' @ r) = Some (d @ asc ''/'' @ r)"
    by (rule lit_append)
  then have "?F (mo, asc ''/'' @ d @ asc ''/'' @ r) \<noteq> None"
    using g by simp
  with mo_in have "first_some ?F (digits_1_2 P (mo @ asc ''/'' @ d @ asc ''/'' @ r)) \<noteq> None"
    by (rule first_some_neq_None)
  with eq show ?thesis by simp
qed

lemma search1_SomeD:
  "re_search (url_pat1_at P) url = Some (y, mo, d) \<Longrightarrow> url_has_compact_slash P url y mo d"
  by (drule re_search_Some) (auto simp: url_pat1_at_Some url_has_compact_slash_def)

lemma search1_None:
  "re_search (url_pat1_at P) url = None \<longleftrightarrow> \<not> (\<exists>y mo d. url_has_compact_slash P url y mo d)"
proof
  assume n: "re_search (url_pat1_at P) url = None"
  show "\<not> (\<exists>y mo d. url_has_compact_slash P url y mo d)"
  proof
    assume "\<exists>y mo d. url_has_compact_slash P url y mo d"
    then obtain y mo d pre rest where
      u: "url = pre @ (asc ''/'' @ y @ mo @ d @ asc ''/'' @ rest)" and
      s: "year20 P y" "two_digits P mo" "two_digits P d"
      by (auto simp: url_has_compact_slash_def)
    from n u have "url_pat1_at P (asc ''/'' @ y @ mo @ d @ asc ''/'' @ rest) = None"
      using re_search_NoneD by blast
    moreover have "url_pat1_at P (asc ''/'' @ y @ mo @ d @ asc ''/'' @ rest) = Some (y, mo, d)"
      using s by (simp only: url_pat1_at_Some) blast
    ultimately show False by simp
  qed
next
  assume n: "\<not> (\<exists>y mo d. url_has_compact_slash P url y mo d)"
  show "re_search (url_pat1_at P) url = None"
  proof (rule re_search_NoneI)
    fix pre suf assume u: "url = pre @ suf"
    show "url_pat1_at P suf = None"
    proof (rule ccontr)
      assume "url_pat1_at P suf \<noteq> None"
      then obtain y mo d where "url_pat1_at P suf = Some (y, mo, d)" by auto
      then have "url_has_compact_slash P url y mo d"
        using u by (auto simp: url_pat1_at_Some url_has_compact_slash_def)
      with n show False by blast
    qed
  qed
qed

lemma search3_SomeD:
  "re_search (url_pat3_at P) url = Some (y, mo, d, r) \<Longrightarrow> url_has_compact P url y mo d"
  by (drule re_search_Some) (auto simp: url_pat3_at_Some url_has_compact_def)

lemma search3_None:
  "re_search (url_pat3_at P) url = None \<longleftrightarrow> \<not> (\<exists>y mo d. url_has_compact P url y mo d)"
proof
  assume n: "re_search (url_pat3_at P) url = None"
  show "\<not> (\<exists>y mo d. url_has_compact P url y mo d)"
  proof
    assume "\<exists>y mo d. url_has_compact P url y mo d"
    then obtain y mo d pre rest where
      u: "url = pre @ (asc ''/'' @ y @ mo @ d @ rest)" and
      s: "year20 P y" "two_digits P mo" "two_digits P d"
      by (auto simp: url_has_compact_def)
    from n u have "url_pat3_at P (asc ''/'' @ y @ mo @ d @ rest) = None"
      using re_search_NoneD by blast
    moreover have "url_pat3_at P (asc ''/'' @ y @ mo @ d @ rest) = Some (y, mo, d, rest)"
      using s by (simp add: url_pat3_at_Some)
    ultimately show False by simp
  qed
next
  assume n: "\<not> (\<exists>y mo d. url_has_compact P url y mo d)"
  show "re_search (url_pat3_at P) url = None"
  proof (rule re_search_NoneI)
    fix pre suf assume u: "url = pre @ suf"
    show "url_pat3_at P suf = None"
    proof (rule ccontr)
      assume "url_pat3_at P suf \<noteq> None"
      then obtain y mo d r where "url_pat3_at P suf = Some (y, mo, d, r)" by auto
      then have "url_has_compact P url y mo d"
        using u by (auto simp: url_pat3_at_Some url_has_compact_def)
      with n show False by blast
    qed
  qed
qed

lemma search2_SomeD:
  "re_search (url_pat2_at P) url = Some (y, mo, d) \<Longrightarrow> url_has_segments P url y mo d"
  by (drule re_search_Some) (auto simp: url_has_segments_def dest!: url_pat2_at_SomeD)

lemma search2_None:
  "re_search (url_pat2_at P) url = None \<longleftrightarrow> \<not> (\<exists>y mo d. url_has_segments P url y mo d)"
proof
  assume n: "re_search (url_pat2_at P) url = None"
  show "\<not> (\<exists>y mo d. url_has_segments P url y mo d)"
  proof
    assume "\<exists>y mo d. url_has_segments P url y mo d"
    then obtain y mo d pre rest where
      u: "url = pre @ (asc ''/'' @ y @ asc ''/'' @ mo @ asc ''/'' @ d @ asc ''/'' @ rest)" and
      s: "year20 P y" "one_or_two_digits P mo" "one_or_two_digits P d"
      by (auto simp: url_has_segments_def)
    from n u have "url_pat2_at P (asc ''/'' @ y @ asc ''/'' @ mo @ asc ''/'' @ d @ asc ''/'' @ rest) = None"
      using re_search_NoneD by blast
    with url_pat2_at_shape [OF s, of rest] show False by simp
  qed
next
  assume n: "\<not> (\<exists>y mo d. url_has_segments P url y mo d)"
  show "re_search (url_pat2_at P) url = None"
  proof (rule re_search_NoneI)
    fix pre suf assume u: "url = pre @ suf"
    show "url_pat2_at P suf = None"
    proof (rule ccontr)
      assume "url_pat2_at P suf \<noteq> None"
      then obtain y mo d where "url_pat2_at P suf = Some (y, mo, d)" by auto
      from url_pat2_at_SomeD [OF this] have "url_has_segments P url y mo d"
        using u by (auto simp: url_has_segments_def)
      with n show False by blast
    qed
  qed
qed

lemma compact_slash_imp_compact:
  "url_has_compact_slash P url y mo d \<Longrightarrow> url_has_compact P url y mo d"
  unfolding url_has_compact_slash_def url_has_compact_def by blast

lemma py_int_one_or_two: "one_or_two_digits P ds \<Longrightarrow> py_int P ds = Inr (dec_value P ds)"
  by (auto simp: py_int_def one_or_two_digits_def)

lemma dotted_nonempty: "dotted y mo d \<noteq> []"
  by (simp add: dotted_def asc_def)

lemma re_search_first:
  "i \<le> length s \<Longrightarrow> m (drop i s) = Some r \<Longrightarrow> (\<forall>j<i. m (drop j s) = None) \<Longrightarrow>
   re_search m s = Some r"
proof (induction s arbitrary: i)
  case Nil
  then show ?case by simp
next
  case (Cons c cs)
  show ?case
  proof (cases i)
    case 0
    with Cons.prems show ?thesis by simp
  next
    case (Suc i')
    with Cons.prems have n: "m (c # cs) = None" by (metis drop0 zero_less_Suc)
    have "re_search m cs = Some r"
    proof (rule Cons.IH [of i'])
      show "i' \<le> length cs" using Cons.prems Suc by simp
      show "m (drop i' cs) = Some r" using Cons.prems Suc by simp
      show "\<forall>j<i'. m (drop j cs) = None"
      proof (intro allI impI)
        fix j assume "j < i'"
        then have "Suc j < i" using Suc by simp
        with Cons.prems(3) have "m (drop (Suc j) (c # cs)) = None" by blast
        then show "m (drop j cs) = None" by simp
      qed
    qed
    with n show ?thesis by simp
  qed
qed

lemma slash_not_digit: "\<not> is_digit P 47"
  by (simp add: is_digit_def digit_value_def)

lemma digits_slash_unique:
  "list_all (is_digit P) a \<Longrightarrow> list_all (is_digit P) b \<Longrightarrow> a @ 47 # r = b @ 47 # r' \<Longrightarrow>
   a = b \<and> r = r'"
proof (induction a arbitrary: b)
  case Nil
  then show ?case by (cases b) (auto simp: slash_not_digit)
next
  case (Cons x xs)
  then show ?case by (cases b) (auto simp: slash_not_digit)
qed

lemma url_pat2_at_Some:
  "url_pat2_at P s = Some (y, mo, d) \<longleftrightarrow>
     (\<exists>r. s = asc ''/'' @ y @ asc ''/'' @ mo @ asc ''/'' @ d @ asc ''/'' @ r
        \<and> year20 P y \<and> one_or_two_digits P mo \<and> one_or_two_digits P d)"
proof
  assume "url_pat2_at P s = Some (y, mo, d)"
  then show "\<exists>r. s = asc ''/'' @ y @ asc ''/'' @ mo @ asc ''/'' @ d @ asc ''/'' @ r
        \<and> year20 P y \<and> one_or_two_digits P mo \<and> one_or_two_digits P d"
    by (rule url_pat2_at_SomeD)
next
  assume "\<exists>r. s = asc ''/'' @ y @ asc ''/'' @ mo @ asc ''/'' @ d @ asc ''/'' @ r
        \<and> year20 P y \<and> one_or_two_digits P mo \<and> one_or_two_digits P d"
  then obtain r where s: "s = asc ''/'' @ y @ asc ''/'' @ mo @ asc ''/'' @ d @ asc ''/'' @ r"
    and sh: "year20 P y" "one_or_two_digits P mo" "one_or_two_digits P d" by blast
  from url_pat2_at_shape [OF sh, of r] s obtain y' mo' d' where
    m: "url_pat2_at P s = Some (y', mo', d')" by auto
  from url_pat2_at_SomeD [OF m] obtain r' where
    s': "s = asc ''/'' @ y' @ asc ''/'' @ mo' @ asc ''/'' @ d' @ asc ''/'' @ r'"
    and sh': "year20 P y'" "one_or_two_digits P mo'" "one_or_two_digits P d'" by blast
  have ly: "length y = length y'" using sh(1) sh'(1) by (auto simp: year20_def asc_def)
  from s s' have "y @ (47 # mo @ 47 # d @ 47 # r) = y' @ (47 # mo' @ 47 # d' @ 47 # r')"
    by (simp add: asc_def)
  with ly have y: "y = y'" and 1: "mo @ 47 # d @ 47 # r = mo' @ 47 # d' @ 47 # r'"
    by simp_all
  have dmo: "list_all (is_digit P) mo" "list_all (is_digit P) mo'"
    using sh(2) sh'(2) by (simp_all add: one_or_two_digits_def)
  from digits_slash_unique [OF dmo 1]
  have mo: "mo = mo'" and 2: "d @ 47 # r = d' @ 47 # r'" by simp_all
  have dd: "list_all (is_digit P) d" "list_all (is_digit P) d'"
    using sh(3) sh'(3) by (simp_all add: one_or_two_digits_def)
  from digits_slash_unique [OF dd 2] have d: "d = d'" by simp
  from m y mo d show "url_pat2_at P s = Some (y, mo, d)" by simp
qed

lemma compact_slash_at_iff:
  "compact_slash_at P url i y mo d \<longleftrightarrow> url_pat1_at P (drop i url) = Some (y, mo, d)"
  by (simp add: compact_slash_at_def url_pat1_at_Some)

lemma segments_at_iff:
  "segments_at P url i y mo d \<longleftrightarrow> url_pat2_at P (drop i url) = Some (y, mo, d)"
  by (simp add: segments_at_def url_pat2_at_Some)

lemma compact_at_iff:
  "compact_at P url i y mo d \<longleftrightarrow> (\<exists>r. url_pat3_at P (drop i url) = Some (y, mo, d, r))"
  by (auto simp: compact_at_def url_pat3_at_Some)

lemma pat_at_length:
  "url_pat1_at P (drop i url) = Some a \<Longrightarrow> i \<le> length url"
  "url_pat2_at P (drop i url) = Some a \<Longrightarrow> i \<le> length url"
  "url_pat3_at P (drop i url) = Some b \<Longrightarrow> i \<le> length url"
proof -
  have 1: "url_pat1_at P [] = None" "url_pat2_at P [] = None" "url_pat3_at P [] = None"
    by (simp_all add: url_pat1_at_def url_pat2_at_def url_pat3_at_def asc_def)
  show "url_pat1_at P (drop i url) = Some a \<Longrightarrow> i \<le> length url"
    using 1 by (cases "i \<le> length url") auto
  show "url_pat2_at P (drop i url) = Some a \<Longrightarrow> i \<le> length url"
    using 1 by (cases "i \<le> length url") auto
  show "url_pat3_at P (drop i url) = Some b \<Longrightarrow> i \<le> length url"
    using 1 by (cases "i \<le> length url") auto
qed

lemma search1_first:
  assumes "compact_slash_at P url i y mo d"
    and "\<forall>j<i. \<not> (\<exists>y' mo' d'. compact_slash_at P url j y' mo' d')"
  shows "re_search (url_pat1_at P) url = Some (y, mo, d)"
proof (rule re_search_first [of i])
  show m: "url_pat1_at P (drop i url) = Some (y, mo, d)"
    using assms(1) by (simp add: compact_slash_at_iff)
  then show "i \<le> length url" by (rule pat_at_length)
  show "\<forall>j<i. url_pat1_at P (drop j url) = None"
  proof (intro allI impI)
    fix j assume "j < i"
    with assms(2) have "\<not> (\<exists>y' mo' d'. url_pat1_at P (drop j url) = Some (y', mo', d'))"
      by (simp add: compact_slash_at_iff)
    then show "url_pat1_at P (drop j url) = None" by (cases "url_pat1_at P (drop j url)") auto
  qed
qed

lemma search2_first:
  assumes "segments_at P url i y mo d"
    and "\<forall>j<i. \<not> (\<exists>y' mo' d'. segments_at P url j y' mo' d')"
  shows "re_search (url_pat2_at P) url = Some (y, mo, d)"
proof (rule re_search_first [of i])
  show m: "url_pat2_at P (drop i url) = Some (y, mo, d)"
    using assms(1) by (simp add: segments_at_iff)
  then show "i \<le> length url" by (rule pat_at_length)
  show "\<forall>j<i. url_pat2_at P (drop j url) = None"
  proof (intro allI impI)
    fix j assume "j < i"
    with assms(2) have "\<not> (\<exists>y' mo' d'. url_pat2_at P (drop j url) = Some (y', mo', d'))"
      by (simp add: segments_at_iff)
    then show "url_pat2_at P (drop j url) = None" by (cases "url_pat2_at P (drop j url)") auto
  qed
qed

lemma search3_first:
  assumes "compact_at P url i y mo d"
    and "\<forall>j<i. \<not> (\<exists>y' mo' d'. compact_at P url j y' mo' d')"
  shows "\<exists>r. re_search (url_pat3_at P) url = Some (y, mo, d, r)"
proof -
  from assms(1) obtain r where m: "url_pat3_at P (drop i url) = Some (y, mo, d, r)"
    by (auto simp: compact_at_iff)
  have "re_search (url_pat3_at P) url = Some (y, mo, d, r)"
  proof (rule re_search_first [of i])
    show "url_pat3_at P (drop i url) = Some (y, mo, d, r)" by (rule m)
    then show "i \<le> length url" by (rule pat_at_length)
    show "\<forall>j<i. url_pat3_at P (drop j url) = None"
    proof (intro allI impI)
      fix j assume "j < i"
      with assms(2) have "\<not> (\<exists>y' mo' d' r'. url_pat3_at P (drop j url) = Some (y', mo', d', r'))"
        by (simp add: compact_at_iff)
      then show "url_pat3_at P (drop j url) = None" by (cases "url_pat3_at P (drop j url)") auto
    qed
  qed
  then show ?thesis by blast
qed

lemma url_has_at:
  "url_has_compact_slash P url y mo d \<longleftrightarrow> (\<exists>i. compact_slash_at P url i y mo d)"
  "url_has_segments P url y mo d \<longleftrightarrow> (\<exists>i. segments_at P url i y mo d)"
  "url_has_compact P url y mo d \<longleftrightarrow> (\<exists>i. compact_at P url i y mo d)"
proof -
  have split: "(\<exists>pre. url = pre @ suf) \<longleftrightarrow> (\<exists>i. drop i url = suf)" for suf :: pystr
  proof
    assume "\<exists>pre. url = pre @ suf"
    then obtain pre where "url = pre @ suf" by blast
    then have "drop (length pre) url = suf" by simp
    then show "\<exists>i. drop i url = suf" by blast
  next
    assume "\<exists>i. drop i url = suf"
    then obtain i where "drop i url = suf" by blast
    then have "url = take i url @ suf" by (metis append_take_drop_id)
    then show "\<exists>pre. url = pre @ suf" by blast
  qed
  show "url_has_compact_slash P url y mo d \<longleftrightarrow> (\<exists>i. compact_slash_at P url i y mo d)"
    unfolding url_has_compact_slash_def compact_slash_at_def using split by blast
  show "url_has_segments P url y mo d \<longleftrightarrow> (\<exists>i. segments_at P url i y mo d)"
    unfolding url_has_segments_def segments_at_def using split by blast
  show "url_has_compact P url y mo d \<longleftrightarrow> (\<exists>i. compact_at P url i y mo d)"
    unfolding url_has_compact_def compact_at_def using split by blast
qed

lemmas url_eval =
  extract_date_from_url_def extract_date_from_url_body_def url_pat1_at_def url_pat2_at_def
  url_pat3_at_def asc_def is_digit_def digit_value_def digits_1_2_def py_int_def dec_value_def
  fmt_02d_def py_str_int_def nat_digits.simps dotted_def digit_of_def take_digits_1 take_digits_2

section \<open>Facts about relative dates\<close>

lemma greedy_splits_set: "(a, r) \<in> set (greedy_splits p s) \<longleftrightarrow> s = a @ r \<and> list_all p a"
proof (induction s arbitrary: a)
  case Nil
  then show ?case by auto
next
  case (Cons c cs)
  show ?case
  proof (cases a)
    case Nil
    then show ?thesis by auto
  next
    case (Cons x xs)
    then show ?thesis using Cons.IH [of xs] by auto
  qed
qed

lemma greedy_splits_head:
  "list_all p a \<Longrightarrow> r = [] \<or> \<not> p (hd r) \<Longrightarrow> \<exists>tl. greedy_splits p (a @ r) = (a, r) # tl"
proof (induction a)
  case Nil
  then show ?case by (cases r) auto
next
  case (Cons x xs)
  then obtain tl where "greedy_splits p (xs @ r) = (xs, r) # tl" by auto
  with Cons.prems show ?case by simp
qed

lemma space_ascii: "is_space c \<Longrightarrow> \<not> (48 \<le> c \<and> c \<le> 57)"
  unfolding is_space_def by arith

lemma space_not_digit: "is_space c \<Longrightarrow> \<not> is_digit P c"
  using space_ascii [of c] by (simp add: is_digit_def digit_value_def)

lemma hangul_not_digit: "44032 \<le> c \<Longrightarrow> c \<le> 55203 \<Longrightarrow> \<not> is_digit P c"
  by (auto simp: is_digit_def digit_value_def)

lemma hangul_not_space: "44032 \<le> c \<Longrightarrow> c \<le> 55203 \<Longrightarrow> \<not> is_space c"
  unfolding is_space_def by arith

lemma digit_not_space: "is_digit P c \<Longrightarrow> \<not> is_space c"
  using space_not_digit by blast

lemma first_some_Cons_Some: "f x = Some r \<Longrightarrow> first_some f (x # xs) = Some r"
  by simp

lemma first_some_head:
  "\<exists>tl. xs = x # tl \<Longrightarrow> f x = Some r \<Longrightarrow> first_some f xs = Some r"
  by auto

lemma tok_heads:
  "\<not> is_space (hd tok_bun)" "\<not> is_space (hd tok_sigan)" "\<not> is_space (hd tok_il)"
  "\<not> is_space (hd tok_jeon)"
  "\<not> is_digit P (hd tok_bun)" "\<not> is_digit P (hd tok_sigan)" "\<not> is_digit P (hd tok_il)"
  by (simp_all add: tok_bun_def tok_sigan_def tok_il_def tok_jeon_def hangul_not_space hangul_not_digit)

lemma lit_unit_mismatch:
  "lit tok_bun (tok_sigan @ r) = None" "lit tok_bun (tok_il @ r) = None"
  "lit tok_sigan (tok_il @ r) = None"
  by (simp_all add: tok_bun_def tok_sigan_def tok_il_def)

lemma rel_pat_at_phrase:
  assumes "rel_phrase P ds u x"
  shows "rel_pat_at P (x @ rest) = Some (ds, u)"
proof -
  from assms obtain ws1 ws2 where
    x: "x = ds @ ws1 @ u @ ws2 @ tok_jeon" and
    ds: "ds \<noteq> []" "list_all (is_digit P) ds" and
    ws: "list_all is_space ws1" "list_all is_space ws2" and
    u: "u \<in> {tok_bun, tok_sigan, tok_il}"
    by (auto simp: rel_phrase_def)
  have u_ne: "u \<noteq> []" and u_sp: "\<not> is_space (hd u)" and u_dg: "\<not> is_digit P (hd u)"
    using u tok_heads by (auto simp: tok_bun_def tok_sigan_def tok_il_def)
  let ?r4 = "tok_jeon @ rest"
  let ?r3 = "ws2 @ ?r4"
  let ?r2 = "u @ ?r3"
  let ?r1 = "ws1 @ ?r2"
  have hd_r1: "?r1 = [] \<or> \<not> is_digit P (hd ?r1)"
  proof (cases ws1)
    case Nil
    then show ?thesis using u_ne u_dg by simp
  next
    case (Cons w ws)
    then show ?thesis using ws(1) space_not_digit by simp
  qed
  have hd_r2: "?r2 = [] \<or> \<not> is_space (hd ?r2)"
    using u_ne u_sp by simp
  have hd_r4: "?r4 = [] \<or> \<not> is_space (hd ?r4)"
    by (simp add: tok_jeon_def hangul_not_space)
  let ?k4 = "\<lambda>(w2 :: pystr, r4). do { _ \<leftarrow> lit tok_jeon r4; Some (ds, u) }"
  have s4: "first_some ?k4 (greedy_splits is_space ?r3) = Some (ds, u)"
    by (rule first_some_head [OF greedy_splits_head [OF ws(2) hd_r4]]) (simp add: lit_append)
  let ?k3 = "\<lambda>unit r3. first_some (\<lambda>(w2 :: pystr, r4). do { _ \<leftarrow> lit tok_jeon r4; Some (ds, unit) })
               (greedy_splits is_space r3)"
  have s3: "first_some (\<lambda>unit. do { r3 \<leftarrow> lit unit ?r2; ?k3 unit r3 }) [tok_bun, tok_sigan, tok_il]
              = Some (ds, u)"
  proof -
    from u consider "u = tok_bun" | "u = tok_sigan" | "u = tok_il" by auto
    then show ?thesis
    proof cases
      case 1
      then show ?thesis using s4 by (simp add: lit_append)
    next
      case 2
      then show ?thesis using s4 by (simp add: lit_append lit_unit_mismatch)
    next
      case 3
      then show ?thesis using s4 by (simp add: lit_append lit_unit_mismatch)
    qed
  qed
  let ?k2 = "\<lambda>(w1 :: pystr, r2). first_some (\<lambda>unit. do { r3 \<leftarrow> lit unit r2; ?k3 unit r3 })
               [tok_bun, tok_sigan, tok_il]"
  have s2: "first_some ?k2 (greedy_splits is_space ?r1) = Some (ds, u)"
    by (rule first_some_head [OF greedy_splits_head [OF ws(1) hd_r2]]) (simp del: first_some.simps add: s3)
  have xr: "x @ rest = ds @ ?r1" by (simp add: x)
  show ?thesis
    unfolding rel_pat_at_def xr
    by (rule first_some_head [OF greedy_splits_head [OF ds(2) hd_r1]]) (simp del: first_some.simps add: ds(1) s2)
qed

lemma rel_pat_at_nondigit: "\<not> is_digit P c \<Longrightarrow> rel_pat_at P (c # cs) = None"
  by (simp add: rel_pat_at_def)

lemma rel_search_skip:
  "list_all (\<lambda>c. \<not> is_digit P c) pre \<Longrightarrow> rel_pat_at P s = Some v \<Longrightarrow>
   re_search (rel_pat_at P) (pre @ s) = Some v"
proof (induction pre)
  case Nil
  then show ?case by (cases s) simp_all
next
  case (Cons c cs)
  then show ?case by (simp add: rel_pat_at_nondigit)
qed

lemma dropWhile_append_stop:
  "y \<noteq> [] \<Longrightarrow> \<not> p (hd y) \<Longrightarrow> dropWhile p (a @ y) = dropWhile p a @ y"
  by (induction a) (auto simp: neq_Nil_conv)

lemma py_strip_around:
  assumes "x \<noteq> []" "\<not> is_space (hd x)" "\<not> is_space (last x)"
  shows "py_strip (pre @ x @ rest) = py_lstrip pre @ x @ py_rstrip rest"
proof -
  have l: "py_lstrip (pre @ x @ rest) = py_lstrip pre @ x @ rest"
    using assms(1,2) dropWhile_append_stop [of "x @ rest" is_space pre]
    by (simp add: py_lstrip_def)
  have "rev x @ rev (py_lstrip pre) \<noteq> []" "\<not> is_space (hd (rev x @ rev (py_lstrip pre)))"
    using assms(1,3) by (simp_all add: hd_rev)
  then have "dropWhile is_space (rev rest @ (rev x @ rev (py_lstrip pre)))
               = dropWhile is_space (rev rest) @ (rev x @ rev (py_lstrip pre))"
    by (rule dropWhile_append_stop)
  then have "py_rstrip (py_lstrip pre @ x @ rest) = py_lstrip pre @ x @ py_rstrip rest"
    by (simp add: py_rstrip_def)
  with l show ?thesis by (simp add: py_strip_def)
qed

lemma py_strip_infix: "\<exists>a b. s = a @ py_strip s @ b"
proof -
  let ?t = "py_lstrip s"
  have 1: "s = takeWhile is_space s @ ?t"
    by (simp add: py_lstrip_def)
  have 2: "?t = py_rstrip ?t @ rev (takeWhile is_space (rev ?t))"
    unfolding py_rstrip_def
    by (simp only: rev_append [symmetric] takeWhile_dropWhile_id rev_rev_ident)
  have "s = takeWhile is_space s @ py_strip s @ rev (takeWhile is_space (rev ?t))"
    using 1 2 by (simp add: py_strip_def)
  then show ?thesis by blast
qed

lemma occurs_in_py_strip: "occurs_in x (py_strip s) \<Longrightarrow> occurs_in x s"
proof -
  assume "occurs_in x (py_strip s)"
  then obtain a b where ab: "py_strip s = a @ x @ b" by (auto simp: occurs_in_def)
  obtain c d where "s = c @ py_strip s @ d" using py_strip_infix by blast
  with ab have "s = (c @ a) @ x @ (b @ d)" by simp
  then show ?thesis unfolding occurs_in_def by blast
qed

lemma contains_occurs_in: "contains n h \<longleftrightarrow> occurs_in n h"
proof
  assume "contains n h"
  then obtain r where "re_search (lit n) h = Some r" by (auto simp: contains_def)
  from re_search_Some [OF this] show "occurs_in n h"
    by (auto simp: lit_Some occurs_in_def)
next
  assume "occurs_in n h"
  then obtain a b where h: "h = a @ (n @ b)" by (auto simp: occurs_in_def)
  show "contains n h"
  proof (rule ccontr)
    assume "\<not> contains n h"
    then have "re_search (lit n) (a @ (n @ b)) = None" by (simp add: contains_def h)
    then have "lit n (n @ b) = None" by (rule re_search_NoneD)
    then show False by (simp add: lit_append)
  qed
qed

lemma rel_pat_at_SomeD:
  assumes "rel_pat_at P s = Some (ds, u)"
  shows "\<exists>x rest. s = x @ rest \<and> rel_phrase P ds u x"
proof -
  from first_some_SomeD [OF assms [unfolded rel_pat_at_def]]
  obtain n r1 where n: "(n, r1) \<in> set (greedy_splits (is_digit P) s)" "n \<noteq> []" and
    f1: "first_some (\<lambda>(w1, r2).
             first_some (\<lambda>unit. do {
                 r3 \<leftarrow> lit unit r2;
                 first_some (\<lambda>(w2, r4). do {
                     _ \<leftarrow> lit tok_jeon r4;
                     Some (n, unit)
                   }) (greedy_splits is_space r3)
               }) [tok_bun, tok_sigan, tok_il])
           (greedy_splits is_space r1) = Some (ds, u)"
    by (auto split: if_splits)
  from first_some_SomeD [OF f1]
  obtain w1 r2 where w1: "(w1, r2) \<in> set (greedy_splits is_space r1)" and
    f2: "first_some (\<lambda>unit. do {
                 r3 \<leftarrow> lit unit r2;
                 first_some (\<lambda>(w2, r4). do {
                     _ \<leftarrow> lit tok_jeon r4;
                     Some (n, unit)
                   }) (greedy_splits is_space r3)
               }) [tok_bun, tok_sigan, tok_il] = Some (ds, u)"
    by auto
  from first_some_SomeD [OF f2]
  obtain unit r3 where unit: "unit \<in> {tok_bun, tok_sigan, tok_il}" and
    r3: "lit unit r2 = Some r3" and
    f3: "first_some (\<lambda>(w2, r4). do {
                     _ \<leftarrow> lit tok_jeon r4;
                     Some (n, unit)
                   }) (greedy_splits is_space r3) = Some (ds, u)"
    by (auto simp: bind_eq_Some_conv)
  from first_some_SomeD [OF f3]
  obtain w2 r4 r5 where w2: "(w2, r4) \<in> set (greedy_splits is_space r3)" and
    r5: "lit tok_jeon r4 = Some r5" and eq: "n = ds" "unit = u"
    by (auto simp: bind_eq_Some_conv)
  have "s = (ds @ w1 @ u @ w2 @ tok_jeon) @ r5"
    using n(1) w1 r3 w2 r5 eq by (simp add: greedy_splits_set lit_Some)
  moreover have "rel_phrase P ds u (ds @ w1 @ u @ w2 @ tok_jeon)"
    unfolding rel_phrase_def using n w1 w2 unit eq
    by (auto simp: greedy_splits_set)
  ultimately show ?thesis by blast
qed

lemma rel_search_None:
  assumes "\<not> (\<exists>ds u x. rel_phrase P ds u x \<and> occurs_in x t)"
  shows "re_search (rel_pat_at P) t = None"
proof (rule re_search_NoneI)
  fix pre suf assume t: "t = pre @ suf"
  show "rel_pat_at P suf = None"
  proof (rule ccontr)
    assume "rel_pat_at P suf \<noteq> None"
    then obtain ds u where "rel_pat_at P suf = Some (ds, u)" by auto
    from rel_pat_at_SomeD [OF this] obtain x rest where "suf = x @ rest" "rel_phrase P ds u x"
      by blast
    with t have "rel_phrase P ds u x \<and> occurs_in x t"
      unfolding occurs_in_def by auto
    with assms show False by blast
  qed
qed

lemma digit_of_nonneg: "0 \<le> digit_of P c"
  by (simp add: digit_of_def split: option.splits)

lemma foldl_dec_nonneg: "0 \<le> a \<Longrightarrow> 0 \<le> foldl (\<lambda>a c. 10 * a + digit_of P c) a ds"
  by (induction ds arbitrary: a) (simp_all add: digit_of_nonneg)

lemma dec_value_nonneg: "0 \<le> dec_value P ds"
  by (simp add: dec_value_def foldl_dec_nonneg)

lemma py_int_digits:
  "ds \<noteq> [] \<Longrightarrow> list_all (is_digit P) ds \<Longrightarrow>
   max_str_digits P = 0 \<or> length ds \<le> max (max_str_digits P) 640 \<Longrightarrow>
   py_int P ds = Inr (dec_value P ds)"
  by (auto simp: py_int_def)

lemma timedelta_small:
  "0 \<le> timedelta_us d h m \<Longrightarrow> timedelta_us d h m < 3652059 * 86400000000 \<Longrightarrow>
   timedelta d h m = Inr (timedelta_us d h m)"
  unfolding timedelta_def us_per_day_def by simp linarith

lemma rel_duration_nonneg: "0 \<le> n \<Longrightarrow> 0 \<le> rel_duration u n"
  by (simp add: rel_duration_def timedelta_us_def)

lemma rel_timedelta:
  assumes "0 \<le> n" "rel_duration u n < 3652059 * 86400000000"
  shows "(if u = tok_bun then timedelta 0 0 n
          else if u = tok_sigan then timedelta 0 n 0
          else timedelta n 0 0) = Inr (rel_duration u n)"
  using assms rel_duration_nonneg [OF assms(1), of u]
  by (auto simp: rel_duration_def timedelta_small)

lemma rel_phrase_ends:
  assumes "rel_phrase P ds u x"
  shows "x \<noteq> []" "\<not> is_space (hd x)" "\<not> is_space (last x)"
proof -
  from assms obtain ws1 ws2 where
    x: "x = ds @ ws1 @ u @ ws2 @ tok_jeon" and ds: "ds \<noteq> []" "list_all (is_digit P) ds"
    by (auto simp: rel_phrase_def)
  show "x \<noteq> []" using x ds by simp
  have "is_digit P (hd ds)" using ds by (cases ds) auto
  then show "\<not> is_space (hd x)" using x ds digit_not_space by simp
  show "\<not> is_space (last x)"
    using x by (simp add: tok_jeon_def hangul_not_space)
qed

lemma normalize_relative_date_phrase:
  assumes tx: "text = pre @ x @ rest" and ph: "rel_phrase P ds u x"
    and pre: "list_all (\<lambda>c. \<not> is_digit P c) pre"
    and lim: "max_str_digits P = 0 \<or> length ds \<le> max (max_str_digits P) 640"
    and now: "in_datetime_range (instant clk + KST)"
    and res: "0 \<le> instant clk + KST - rel_duration u (dec_value P ds)"
  shows "normalize_relative_date P clk text
           = Inr (strftime_Ymd P (instant clk + KST - rel_duration u (dec_value P ds)))"
proof -
  let ?now = "instant clk + KST"
  let ?n = "dec_value P ds"
  have st: "py_strip text = py_lstrip pre @ x @ py_rstrip rest"
    unfolding tx using rel_phrase_ends [OF ph] by (rule py_strip_around)
  have "list_all (\<lambda>c. \<not> is_digit P c) (py_lstrip pre)"
    using pre set_dropWhileD [of _ is_space pre] by (auto simp: py_lstrip_def list_all_iff)
  then have se: "re_search (rel_pat_at P) (py_strip text) = Some (ds, u)"
    unfolding st using rel_pat_at_phrase [OF ph] by (rule rel_search_skip)
  have dn: "datetime_now clk (Some KST) = Inr ?now"
    using now by (simp add: datetime_now_def)
  have pi: "py_int P ds = Inr ?n"
    using ph lim by (auto simp: rel_phrase_def intro: py_int_digits)
  have n0: "0 \<le> ?n" by (rule dec_value_nonneg)
  have "rel_duration u ?n \<le> ?now" using res by simp
  then have "rel_duration u ?n < 3652059 * 86400000000"
    using now by (simp add: in_datetime_range_def)
  then have td: "(if u = tok_bun then timedelta 0 0 ?n
          else if u = tok_sigan then timedelta 0 ?n 0
          else timedelta ?n 0 0) = Inr (rel_duration u ?n)"
    using n0 by (simp only: rel_timedelta)
  have "in_datetime_range (?now - rel_duration u ?n)"
    using now res rel_duration_nonneg [OF n0, of u] by (simp add: in_datetime_range_def)
  then have su: "datetime_sub ?now (rel_duration u ?n) = Inr (?now - rel_duration u ?n)"
    by (simp add: datetime_sub_def)
  show ?thesis
    unfolding normalize_relative_date_def
    by (simp only: dn se pi td su bind_exn_def sum.case option.case prod.case)
qed

lemma normalize_relative_date_nothing:
  assumes "\<not> (\<exists>ds u x. rel_phrase P ds u x \<and> occurs_in x text)"
    and "\<not> occurs_in tok_eoje text" "\<not> occurs_in tok_oneul text"
    and now: "in_datetime_range (instant clk + KST)"
  shows "normalize_relative_date P clk text = Inr []"
proof -
  have "\<not> (\<exists>ds u x. rel_phrase P ds u x \<and> occurs_in x (py_strip text))"
    using assms(1) occurs_in_py_strip by blast
  then have se: "re_search (rel_pat_at P) (py_strip text) = None"
    by (rule rel_search_None)
  have c: "\<not> contains tok_eoje (py_strip text)" "\<not> contains tok_oneul (py_strip text)"
    using assms(2,3) occurs_in_py_strip by (auto simp: contains_occurs_in)
  have dn: "datetime_now clk (Some KST) = Inr (instant clk + KST)"
    using now by (simp add: datetime_now_def)
  show ?thesis
    unfolding normalize_relative_date_def
    by (simp add: dn se c bind_exn_def)
qed

lemma normalize_relative_date_host:
  "normalize_relative_date P (clk\<lparr>host_utcoffset := z\<rparr>) text = normalize_relative_date P clk text"
  by (simp add: normalize_relative_date_def datetime_now_def)

lemma occurs_in_set: "occurs_in x s \<Longrightarrow> set x \<subseteq> set s"
  by (auto simp: occurs_in_def)

lemma rel_phrase_jeon: "rel_phrase P ds u x \<Longrightarrow> 51204 \<in> set x"
  by (auto simp: rel_phrase_def tok_jeon_def)

lemmas rel_eval =
  normalize_relative_date_def bind_exn_def datetime_now_def in_datetime_range_def KST_def
  py_strip_def py_lstrip_def py_rstrip_def rel_pat_at_def is_space_def is_digit_def
  digit_value_def tok_bun_def tok_sigan_def tok_il_def tok_jeon_def tok_eoje_def tok_oneul_def
  contains_def py_int_def dec_value_def digit_of_def timedelta_def timedelta_us_def
  us_per_day_def datetime_sub_def strftime_Ymd_def fmt_Ymd_def date_of_def ymd_of_ordinal_def
  ymd_of_doe_def ymd_of_yoe_def ymd_of_doy_def ymd_of_mp_def year_str_def fmt_02d_def
  py_str_int_def nat_digits.simps asc_def cpython311_def rel_duration_def


section \<open>Claims about the URL date\<close>

text \<open>
  C3 (as amended). \<^verbatim>\<open>_extract_date_from_url\<close> never raises: the body of its \<^verbatim>\<open>try\<close> block
  returns on every string. It returns the empty string exactly when the URL holds neither
  the segments \<^verbatim>\<open>/20YY/M/D/\<close> nor a slash followed by a run \<^verbatim>\<open>20YYMMDD\<close>. Otherwise the
  date is that of the first shape present, in this order, and of the leftmost occurrence
  of that shape, whatever other dates the URL holds: the run closed by a slash (as
  \<^verbatim>\<open>y.mo.d\<close>, the digits as matched); if there is none, the segments (month and day read
  as numbers and written with two digits); if there are none either, the run with no
  closing slash. A run of eight digits with no slash before it, or a year that does not
  start with 20, is not recognised.
\<close>

theorem extract_date_from_url_shapes:
  "(\<exists>r. extract_date_from_url_body P url = Inr r)
   \<and> (extract_date_from_url P url = [] \<longleftrightarrow>
        \<not> (\<exists>y mo d. url_has_segments P url y mo d) \<and> \<not> (\<exists>y mo d. url_has_compact P url y mo d))
   \<and> (compact_slash_at P url i y mo d
        \<and> (\<forall>j<i. \<not> (\<exists>y' mo' d'. compact_slash_at P url j y' mo' d'))
      \<longrightarrow> extract_date_from_url P url = dotted y mo d)
   \<and> (\<not> (\<exists>y' mo' d'. url_has_compact_slash P url y' mo' d')
        \<and> segments_at P url i y mo d
        \<and> (\<forall>j<i. \<not> (\<exists>y' mo' d'. segments_at P url j y' mo' d'))
      \<longrightarrow> extract_date_from_url P url
            = dotted y (fmt_02d (dec_value P mo)) (fmt_02d (dec_value P d)))
   \<and> (\<not> (\<exists>y' mo' d'. url_has_compact_slash P url y' mo' d')
        \<and> \<not> (\<exists>y' mo' d'. url_has_segments P url y' mo' d')
        \<and> compact_at P url i y mo d
        \<and> (\<forall>j<i. \<not> (\<exists>y' mo' d'. compact_at P url j y' mo' d'))
      \<longrightarrow> extract_date_from_url P url = dotted y mo d)"
  (is "?A \<and> ?B \<and> ?C \<and> ?D \<and> ?E")
proof -
  have C: ?C
  proof
    assume "compact_slash_at P url i y mo d
        \<and> (\<forall>j<i. \<not> (\<exists>y' mo' d'. compact_slash_at P url j y' mo' d'))"
    then have "re_search (url_pat1_at P) url = Some (y, mo, d)"
      using search1_first by blast
    then show "extract_date_from_url P url = dotted y mo d"
      by (simp add: extract_date_from_url_def extract_date_from_url_body_def)
  qed
  have D: ?D
  proof
    assume h: "\<not> (\<exists>y' mo' d'. url_has_compact_slash P url y' mo' d')
        \<and> segments_at P url i y mo d
        \<and> (\<forall>j<i. \<not> (\<exists>y' mo' d'. segments_at P url j y' mo' d'))"
    then have n1: "re_search (url_pat1_at P) url = None" by (simp add: search1_None)
    from h have s2: "re_search (url_pat2_at P) url = Some (y, mo, d)"
      using search2_first by blast
    from h have "one_or_two_digits P mo" "one_or_two_digits P d"
      by (auto simp: segments_at_def)
    then have "py_int P mo = Inr (dec_value P mo)" "py_int P d = Inr (dec_value P d)"
      by (simp_all add: py_int_one_or_two)
    with n1 s2 show "extract_date_from_url P url
            = dotted y (fmt_02d (dec_value P mo)) (fmt_02d (dec_value P d))"
      by (simp add: extract_date_from_url_def extract_date_from_url_body_def)
  qed
  have E: ?E
  proof
    assume h: "\<not> (\<exists>y' mo' d'. url_has_compact_slash P url y' mo' d')
        \<and> \<not> (\<exists>y' mo' d'. url_has_segments P url y' mo' d')
        \<and> compact_at P url i y mo d
        \<and> (\<forall>j<i. \<not> (\<exists>y' mo' d'. compact_at P url j y' mo' d'))"
    then have n1: "re_search (url_pat1_at P) url = None" by (simp add: search1_None)
    from h have n2: "re_search (url_pat2_at P) url = None" by (simp add: search2_None)
    from h have "compact_at P url i y mo d"
      and "\<forall>j<i. \<not> (\<exists>y' mo' d'. compact_at P url j y' mo' d')" by simp_all
    from search3_first [OF this] obtain r where
      "re_search (url_pat3_at P) url = Some (y, mo, d, r)" by blast
    with n1 n2 show "extract_date_from_url P url = dotted y mo d"
      by (simp add: extract_date_from_url_def extract_date_from_url_body_def)
  qed
  have AB: "?A \<and> ?B"
  proof (cases "re_search (url_pat1_at P) url")
    case (Some t1)
    obtain y mo d where t1: "t1 = (y, mo, d)" by (cases t1) auto
    have sh: "url_has_compact_slash P url y mo d"
      using Some t1 search1_SomeD by simp
    have b: "extract_date_from_url_body P url = Inr (dotted y mo d)"
      using Some t1 by (simp add: extract_date_from_url_body_def)
    then have r: "extract_date_from_url P url = dotted y mo d"
      by (simp add: extract_date_from_url_def)
    have c: "url_has_compact P url y mo d"
      using sh by (rule compact_slash_imp_compact)
    have ?A using b by simp
    moreover have ?B using r c dotted_nonempty by auto
    ultimately show ?thesis by blast
  next
    case n1: None
    show ?thesis
    proof (cases "re_search (url_pat2_at P) url")
      case (Some t2)
      obtain y mo d where t2: "t2 = (y, mo, d)" by (cases t2) auto
      have sh: "url_has_segments P url y mo d"
        using Some t2 search2_SomeD by simp
      then have i: "py_int P mo = Inr (dec_value P mo)" "py_int P d = Inr (dec_value P d)"
        by (auto simp: url_has_segments_def py_int_one_or_two)
      have b: "extract_date_from_url_body P url
                 = Inr (dotted y (fmt_02d (dec_value P mo)) (fmt_02d (dec_value P d)))"
        using n1 Some t2 i by (simp add: extract_date_from_url_body_def)
      then have r: "extract_date_from_url P url
                 = dotted y (fmt_02d (dec_value P mo)) (fmt_02d (dec_value P d))"
        by (simp add: extract_date_from_url_def)
      have ?A using b by simp
      moreover have ?B using r sh dotted_nonempty by auto
      ultimately show ?thesis by blast
    next
      case n2: None
      then have no2: "\<not> (\<exists>y mo d. url_has_segments P url y mo d)"
        by (simp add: search2_None)
      show ?thesis
      proof (cases "re_search (url_pat3_at P) url")
        case (Some t3)
        obtain y mo d r3 where t3: "t3 = (y, mo, d, r3)" by (cases t3) auto
        have sh: "url_has_compact P url y mo d"
          using Some t3 search3_SomeD by simp
        have b: "extract_date_from_url_body P url = Inr (dotted y mo d)"
          using n1 n2 Some t3 by (simp add: extract_date_from_url_body_def)
        then have r: "extract_date_from_url P url = dotted y mo d"
          by (simp add: extract_date_from_url_def)
        have ?A using b by simp
        moreover have ?B using r sh dotted_nonempty by auto
        ultimately show ?thesis by blast
      next
        case n3: None
        then have no3: "\<not> (\<exists>y mo d. url_has_compact P url y mo d)"
          by (simp add: search3_None)
        have b: "extract_date_from_url_body P url = Inr []"
          using n1 n2 n3 by (simp add: extract_date_from_url_body_def)
        then have r: "extract_date_from_url P url = []"
          by (simp add: extract_date_from_url_def)
        have ?A using b by simp
        moreover have ?B using r no2 no3 by simp
        ultimately show ?thesis by blast
      qed
    qed
  qed
  from AB C D E show ?thesis by blast
qed

text \<open>
  The claim as first stated promised the date for every URL that contains a bare run
  \<^verbatim>\<open>20240307\<close>, and \<^verbatim>\<open>2024.03.07\<close> for every URL that contains \<^verbatim>\<open>/2024/03/07/\<close>. The
  third pattern needs a slash before the run: in a query string the run is not found. And
  a run closed by a slash goes before the segments, wherever it stands.
\<close>

theorem extract_date_from_url_bare_run:
  "extract_date_from_url cpython311 (asc ''https://example.com/a?d=20240307'') = []
   \<and> asc ''https://example.com/a?d=20240307'' = asc ''https://example.com/a?d='' @ asc ''20240307''
   \<and> extract_date_from_url cpython311 (asc ''https://example.com/20230101/2024/03/07/'')
       = asc ''2023.01.01''
   \<and> asc ''https://example.com/20230101/2024/03/07/''
       = asc ''https://example.com/20230101'' @ asc ''/2024/03/07/''"
  by (simp add: url_eval)

text \<open>
  The three shapes at work, each on a URL that holds a second date: a closed run after
  the segments, segments before a run that nothing closes, and two runs that nothing
  closes.
\<close>

theorem extract_date_from_url_shapes_witness:
  "extract_date_from_url cpython311 (asc ''https://example.com/2024/03/07/20230101/'')
     = dotted (asc ''2023'') (asc ''01'') (asc ''01'')
   \<and> extract_date_from_url cpython311 (asc ''https://example.com/2024/3/7/20230101'')
     = dotted (asc ''2024'') (fmt_02d (dec_value cpython311 (asc ''3'')))
         (fmt_02d (dec_value cpython311 (asc ''7'')))
   \<and> extract_date_from_url cpython311 (asc ''https://example.com/v/20240307x/20230101'')
     = dotted (asc ''2024'') (asc ''03'') (asc ''07'')
   \<and> dotted (asc ''2024'') (fmt_02d (dec_value cpython311 (asc ''3'')))
         (fmt_02d (dec_value cpython311 (asc ''7''))) = asc ''2024.03.07''
   \<and> dotted (asc ''2024'') (asc ''03'') (asc ''07'') = asc ''2024.03.07''"
proof -
  let ?u1 = "asc ''https://example.com/2024/03/07/20230101/''"
  let ?u2 = "asc ''https://example.com/2024/3/7/20230101''"
  let ?u3 = "asc ''https://example.com/v/20240307x/20230101''"
  have h1: "compact_slash_at cpython311 ?u1 30 (asc ''2023'') (asc ''01'') (asc ''01'')
        \<and> (\<forall>j<30. \<not> (\<exists>y' mo' d'. compact_slash_at cpython311 ?u1 j y' mo' d'))"
    by (simp add: compact_slash_at_iff eval_nat_numeral All_less_Suc url_eval)
  have n2: "\<not> (\<exists>y' mo' d'. url_has_compact_slash cpython311 ?u2 y' mo' d')"
    unfolding search1_None [symmetric] by (simp add: url_eval)
  have h2: "segments_at cpython311 ?u2 19 (asc ''2024'') (asc ''3'') (asc ''7'')
        \<and> (\<forall>j<19. \<not> (\<exists>y' mo' d'. segments_at cpython311 ?u2 j y' mo' d'))"
    by (simp add: segments_at_iff eval_nat_numeral All_less_Suc url_eval)
  have n3: "\<not> (\<exists>y' mo' d'. url_has_compact_slash cpython311 ?u3 y' mo' d')"
    unfolding search1_None [symmetric] by (simp add: url_eval)
  have m3: "\<not> (\<exists>y' mo' d'. url_has_segments cpython311 ?u3 y' mo' d')"
    unfolding search2_None [symmetric] by (simp add: url_eval)
  have h3: "compact_at cpython311 ?u3 21 (asc ''2024'') (asc ''03'') (asc ''07'')
        \<and> (\<forall>j<21. \<not> (\<exists>y' mo' d'. compact_at cpython311 ?u3 j y' mo' d'))"
    by (simp add: compact_at_iff eval_nat_numeral All_less_Suc url_eval)
  have c1: "extract_date_from_url cpython311 ?u1 = dotted (asc ''2023'') (asc ''01'') (asc ''01'')"
    using extract_date_from_url_shapes
      [of cpython311 ?u1 30 "asc ''2023''" "asc ''01''" "asc ''01''"] h1
    by blast
  have c2: "extract_date_from_url cpython311 ?u2
     = dotted (asc ''2024'') (fmt_02d (dec_value cpython311 (asc ''3'')))
         (fmt_02d (dec_value cpython311 (asc ''7'')))"
    using extract_date_from_url_shapes
      [of cpython311 ?u2 19 "asc ''2024''" "asc ''3''" "asc ''7''"] n2 h2
    by blast
  have c3: "extract_date_from_url cpython311 ?u3 = dotted (asc ''2024'') (asc ''03'') (asc ''07'')"
    using extract_date_from_url_shapes
      [of cpython311 ?u3 21 "asc ''2024''" "asc ''03''" "asc ''07''"] n3 m3 h3
    by blast
  have e: "dotted (asc ''2024'') (fmt_02d (dec_value cpython311 (asc ''3'')))
         (fmt_02d (dec_value cpython311 (asc ''7''))) = asc ''2024.03.07''"
      "dotted (asc ''2024'') (asc ''03'') (asc ''07'') = asc ''2024.03.07''"
    by (simp_all add: url_eval)
  from c1 c2 c3 e show ?thesis by simp
qed

lemma normalize_relative_date_found:
  assumes se: "re_search (rel_pat_at P) (py_strip text) = Some (ds, u)"
    and ds: "ds \<noteq> []" "list_all (is_digit P) ds"
    and lim: "max_str_digits P = 0 \<or> length ds \<le> max (max_str_digits P) 640"
    and now: "in_datetime_range (instant clk + KST)"
    and res: "0 \<le> instant clk + KST - rel_duration u (dec_value P ds)"
  shows "normalize_relative_date P clk text
           = Inr (strftime_Ymd P (instant clk + KST - rel_duration u (dec_value P ds)))"
proof -
  let ?now = "instant clk + KST"
  let ?n = "dec_value P ds"
  have dn: "datetime_now clk (Some KST) = Inr ?now"
    using now by (simp add: datetime_now_def)
  have pi: "py_int P ds = Inr ?n"
    using ds lim by (rule py_int_digits)
  have n0: "0 \<le> ?n" by (rule dec_value_nonneg)
  have "rel_duration u ?n \<le> ?now" using res by simp
  then have "rel_duration u ?n < 3652059 * 86400000000"
    using now by (simp add: in_datetime_range_def)
  then have td: "(if u = tok_bun then timedelta 0 0 ?n
          else if u = tok_sigan then timedelta 0 ?n 0
          else timedelta ?n 0 0) = Inr (rel_duration u ?n)"
    using n0 by (simp only: rel_timedelta)
  have "in_datetime_range (?now - rel_duration u ?n)"
    using now res rel_duration_nonneg [OF n0, of u] by (simp add: in_datetime_range_def)
  then have su: "datetime_sub ?now (rel_duration u ?n) = Inr (?now - rel_duration u ?n)"
    by (simp add: datetime_sub_def)
  show ?thesis
    unfolding normalize_relative_date_def
    by (simp only: dn se pi td su bind_exn_def sum.case option.case prod.case)
qed

lemma rel_search_found:
  assumes ph: "rel_phrase P ds u x" and oc: "occurs_in x text"
  shows "\<exists>ds' u' x'. rel_phrase P ds' u' x' \<and> occurs_in x' text
            \<and> re_search (rel_pat_at P) (py_strip text) = Some (ds', u')"
proof -
  from oc obtain pre rest where tx: "text = pre @ x @ rest" by (auto simp: occurs_in_def)
  have st: "py_strip text = py_lstrip pre @ (x @ py_rstrip rest)"
    unfolding tx using rel_phrase_ends [OF ph] py_strip_around by simp
  have "re_search (rel_pat_at P) (py_strip text) \<noteq> None"
  proof
    assume "re_search (rel_pat_at P) (py_strip text) = None"
    then have "rel_pat_at P (x @ py_rstrip rest) = None"
      unfolding st by (rule re_search_NoneD)
    with rel_pat_at_phrase [OF ph, of "py_rstrip rest"] show False by simp
  qed
  then obtain ds' u' where se: "re_search (rel_pat_at P) (py_strip text) = Some (ds', u')"
    by auto
  from re_search_Some [OF se] obtain a suf where
    sp: "py_strip text = a @ suf" and m: "rel_pat_at P suf = Some (ds', u')" by blast
  from rel_pat_at_SomeD [OF m] obtain x' r' where
    suf: "suf = x' @ r'" and ph': "rel_phrase P ds' u' x'" by blast
  from sp suf have "occurs_in x' (py_strip text)" unfolding occurs_in_def by auto
  then have "occurs_in x' text" by (rule occurs_in_py_strip)
  with ph' se show ?thesis by blast
qed

lemma normalize_relative_date_some_phrase:
  assumes "\<exists>ds u x. rel_phrase P ds u x \<and> occurs_in x text"
    and now: "in_datetime_range (instant clk + KST)"
  shows "\<exists>ds u x. rel_phrase P ds u x \<and> occurs_in x text
           \<and> ((max_str_digits P = 0 \<or> length ds \<le> max (max_str_digits P) 640)
                \<and> 0 \<le> instant clk + KST - rel_duration u (dec_value P ds)
              \<longrightarrow> normalize_relative_date P clk text
                    = Inr (strftime_Ymd P (instant clk + KST - rel_duration u (dec_value P ds))))"
proof -
  from assms(1) obtain ds0 u0 x0 where "rel_phrase P ds0 u0 x0" "occurs_in x0 text" by blast
  from rel_search_found [OF this] obtain ds u x where
    ph: "rel_phrase P ds u x" and oc: "occurs_in x text"
    and se: "re_search (rel_pat_at P) (py_strip text) = Some (ds, u)" by blast
  have d: "ds \<noteq> []" "list_all (is_digit P) ds" using ph by (auto simp: rel_phrase_def)
  have "(max_str_digits P = 0 \<or> length ds \<le> max (max_str_digits P) 640)
                \<and> 0 \<le> instant clk + KST - rel_duration u (dec_value P ds)
              \<longrightarrow> normalize_relative_date P clk text
                    = Inr (strftime_Ymd P (instant clk + KST - rel_duration u (dec_value P ds)))"
    using normalize_relative_date_found [OF se d _ now] by blast
  with ph oc show ?thesis by blast
qed

section \<open>Claims about relative dates\<close>

text \<open>
  C2 (as amended). Let the text hold a phrase "N unit ago" (N a run of digits, the unit one
  of minute, hour, day, blanks allowed around the unit) with no digit before it, let N have
  no more digits than \<^verbatim>\<open>int\<close> accepts, and let the clock reading and the result lie in the
  range of \<^verbatim>\<open>datetime\<close> (the result not before 0001-01-01). Then
  \<^verbatim>\<open>_normalize_relative_date\<close> returns the day on which the instant "now in UTC+9 minus
  exactly N units" falls, written by \<^verbatim>\<open>strftime("%Y.%m.%d")\<close>. For a text that holds no
  such phrase and neither the word for yesterday nor the word for today, it returns the
  empty string. The zone of the machine has no part in the result. And whatever stands
  before it, a text that holds such a phrase is answered from one of its phrases (the
  first match of the pattern): with the day of that phrase when it is in range.
\<close>

theorem normalize_relative_date_spec:
  "(text = pre @ x @ rest \<and> rel_phrase P ds u x \<and> list_all (\<lambda>c. \<not> is_digit P c) pre
      \<and> (max_str_digits P = 0 \<or> length ds \<le> max (max_str_digits P) 640)
      \<and> in_datetime_range (instant clk + KST)
      \<and> 0 \<le> instant clk + KST - rel_duration u (dec_value P ds)
     \<longrightarrow> normalize_relative_date P clk text
           = Inr (strftime_Ymd P (instant clk + KST - rel_duration u (dec_value P ds))))
   \<and> (\<not> (\<exists>ds u x. rel_phrase P ds u x \<and> occurs_in x text)
      \<and> \<not> occurs_in tok_eoje text \<and> \<not> occurs_in tok_oneul text
      \<and> in_datetime_range (instant clk + KST)
     \<longrightarrow> normalize_relative_date P clk text = Inr [])
   \<and> normalize_relative_date P (clk\<lparr>host_utcoffset := z\<rparr>) text
       = normalize_relative_date P clk text
   \<and> ((\<exists>ds u x. rel_phrase P ds u x \<and> occurs_in x text) \<and> in_datetime_range (instant clk + KST)
     \<longrightarrow> (\<exists>ds u x. rel_phrase P ds u x \<and> occurs_in x text
           \<and> ((max_str_digits P = 0 \<or> length ds \<le> max (max_str_digits P) 640)
                \<and> 0 \<le> instant clk + KST - rel_duration u (dec_value P ds)
              \<longrightarrow> normalize_relative_date P clk text
                    = Inr (strftime_Ymd P (instant clk + KST - rel_duration u (dec_value P ds))))))"
proof (intro conjI)
  show "(\<exists>ds u x. rel_phrase P ds u x \<and> occurs_in x text) \<and> in_datetime_range (instant clk + KST)
     \<longrightarrow> (\<exists>ds u x. rel_phrase P ds u x \<and> occurs_in x text
           \<and> ((max_str_digits P = 0 \<or> length ds \<le> max (max_str_digits P) 640)
                \<and> 0 \<le> instant clk + KST - rel_duration u (dec_value P ds)
              \<longrightarrow> normalize_relative_date P clk text
                    = Inr (strftime_Ymd P (instant clk + KST - rel_duration u (dec_value P ds)))))"
    using normalize_relative_date_some_phrase [of P "text" clk] by blast
next
  show "text = pre @ x @ rest \<and> rel_phrase P ds u x \<and> list_all (\<lambda>c. \<not> is_digit P c) pre
      \<and> (max_str_digits P = 0 \<or> length ds \<le> max (max_str_digits P) 640)
      \<and> in_datetime_range (instant clk + KST)
      \<and> 0 \<le> instant clk + KST - rel_duration u (dec_value P ds)
     \<longrightarrow> normalize_relative_date P clk text
           = Inr (strftime_Ymd P (instant clk + KST - rel_duration u (dec_value P ds)))"
    using normalize_relative_date_phrase by blast
next
  show "\<not> (\<exists>ds u x. rel_phrase P ds u x \<and> occurs_in x text)
      \<and> \<not> occurs_in tok_eoje text \<and> \<not> occurs_in tok_oneul text
      \<and> in_datetime_range (instant clk + KST)
     \<longrightarrow> normalize_relative_date P clk text = Inr []"
    using normalize_relative_date_nothing by blast
next
  show "normalize_relative_date P (clk\<lparr>host_utcoffset := z\<rparr>) text
       = normalize_relative_date P clk text"
    by (rule normalize_relative_date_host)
qed

text \<open>
  The claim as first stated promised a date for every N. For N = 800000 days the result
  would lie before the year 1, and the subtraction raises OverflowError; nothing in
  \<^verbatim>\<open>_normalize_relative_date\<close> or its callers catches it.
\<close>

theorem normalize_relative_date_overflow:
  "normalize_relative_date cpython311 clock_example (asc ''800000'' @ tok_il @ asc '' '' @ tok_jeon)
     = Inl OverflowError"
  by (simp add: rel_eval clock_example_def)


text \<open>
  Three days before 2024-03-07 12:00 (UTC+9), and a text with a date but no relative
  phrase.
\<close>

theorem normalize_relative_date_spec_witness:
  "normalize_relative_date cpython311 clock_example (asc '' 3'' @ tok_il @ asc '' '' @ tok_jeon)
     = Inr (asc ''2024.03.04'')
   \<and> normalize_relative_date cpython311 clock_example (asc ''2024.03.07 hello'') = Inr []"
proof -
  let ?P = cpython311 and ?clk = clock_example
  let ?x = "asc ''3'' @ tok_il @ asc '' '' @ tok_jeon"
  have tx: "asc '' 3'' @ tok_il @ asc '' '' @ tok_jeon = asc '' '' @ ?x @ []"
    by (simp add: asc_def)
  have ph: "rel_phrase ?P (asc ''3'') tok_il ?x"
    unfolding rel_phrase_def
    by (rule exI [of _ "[]"], rule exI [of _ "asc '' ''"])
       (simp add: asc_def is_digit_def digit_value_def is_space_def)
  have pre: "list_all (\<lambda>c. \<not> is_digit ?P c) (asc '' '')"
    by (simp add: asc_def is_digit_def digit_value_def)
  have lim: "max_str_digits ?P = 0 \<or> length (asc ''3'') \<le> max (max_str_digits ?P) 640"
    by (simp add: asc_def cpython311_def)
  have now: "in_datetime_range (instant ?clk + KST)"
    by (simp add: in_datetime_range_def clock_example_def KST_def)
  have res: "0 \<le> instant ?clk + KST - rel_duration tok_il (dec_value ?P (asc ''3''))"
    by (simp add: rel_eval clock_example_def)
  have val: "strftime_Ymd ?P (instant ?clk + KST - rel_duration tok_il (dec_value ?P (asc ''3'')))
               = asc ''2024.03.04''"
    by (simp add: rel_eval clock_example_def)
  have 1: "normalize_relative_date ?P ?clk (asc '' 3'' @ tok_il @ asc '' '' @ tok_jeon)
             = Inr (asc ''2024.03.04'')"
    using normalize_relative_date_spec [of "asc '' 3'' @ tok_il @ asc '' '' @ tok_jeon"
        "asc '' ''" ?x "[]" ?P "asc ''3''" tok_il ?clk] tx ph pre lim now res val
    by simp
  let ?t = "asc ''2024.03.07 hello''"
  have n1: "\<not> (\<exists>ds u x. rel_phrase ?P ds u x \<and> occurs_in x ?t)"
  proof
    assume "\<exists>ds u x. rel_phrase ?P ds u x \<and> occurs_in x ?t"
    then obtain ds u x where "rel_phrase ?P ds u x" "occurs_in x ?t" by blast
    then have "51204 \<in> set ?t" using rel_phrase_jeon occurs_in_set by blast
    then show False by (simp add: asc_def)
  qed
  have n2: "\<not> occurs_in tok_eoje ?t"
  proof
    assume "occurs_in tok_eoje ?t"
    then have "set tok_eoje \<subseteq> set ?t" by (rule occurs_in_set)
    then show False by (simp add: asc_def tok_eoje_def)
  qed
  have n3: "\<not> occurs_in tok_oneul ?t"
  proof
    assume "occurs_in tok_oneul ?t"
    then have "set tok_oneul \<subseteq> set ?t" by (rule occurs_in_set)
    then show False by (simp add: asc_def tok_oneul_def)
  qed
  have 2: "normalize_relative_date ?P ?clk ?t = Inr []"
    using normalize_relative_date_spec [of ?t _ _ _ ?P _ _ ?clk] n1 n2 n3 now
    by blast
  from 1 2 show ?thesis by simp
qed

section \<open>The libraries and the outside world\<close>

text \<open>
  The result of \<^verbatim>\<open>session.get\<close>: a response with its \<^verbatim>\<open>status_code\<close> and \<^verbatim>\<open>text\<close>,
  or a \<^verbatim>\<open>requests.RequestException\<close> with its message.
\<close>

datatype http_result = Response int pystr | RequestException pystr

text \<open>
  What \<^verbatim>\<open>app.py\<close> asks of code that is not its own, as parameters of the model. \<open>'n\<close> is
  the type of the nodes of a parsed document (\<^verbatim>\<open>bs4.Tag\<close>).
  \<^item> BeautifulSoup: \<open>soup\<close> is \<^verbatim>\<open>BeautifulSoup(html, "lxml")\<close>, \<open>select\<close> is
    \<^verbatim>\<open>tag.select(selector)\<close>, \<open>find_all\<close> is \<^verbatim>\<open>tag.find_all(name)\<close>,
    \<open>find_a_news_tit\<close> is \<^verbatim>\<open>tag.find("a", attrs={"class": re.compile("news_tit")})\<close>,
    \<open>find_press_class\<close> is
    \<^verbatim>\<open>tag.find(class_=re.compile(r"(press|source|profile-info-title)", re.I))\<close>,
    \<open>get_text sep\<close> is \<^verbatim>\<open>tag.get_text(sep, strip=True)\<close> and \<open>attr\<close> is \<^verbatim>\<open>tag.get(name)\<close>.
  \<^item> \<open>quote_plus\<close> of \<^verbatim>\<open>urllib.parse\<close>; \<open>urlparse_netloc\<close> is \<^verbatim>\<open>urlparse(link).netloc\<close>,
    None when \<^verbatim>\<open>urlparse\<close> raises.
  \<^item> \<open>fromisoformat_kst s\<close> is
    \<^verbatim>\<open>datetime.fromisoformat(s).astimezone(KST).strftime("%Y.%m.%d")\<close>, None when it raises.
  \<^item> \<open>html_time_datetime\<close> and \<open>html_published_time\<close> are group 1 of the first match of the
    two patterns that \<^verbatim>\<open>_extract_date_from_article\<close> searches with \<^verbatim>\<open>re.I\<close> (the
    \<^verbatim>\<open>datetime\<close> attribute of a \<^verbatim>\<open>time\<close> element, the content of the
    \<^verbatim>\<open>article:published_time\<close> property).
  \<^item> The network and the clock answer by the number of times the program has asked either
    of them so far: \<open>http_get k url\<close> is what \<^verbatim>\<open>session.get(url, ...)\<close> gives when it is
    the interaction number \<open>k\<close>, \<open>clock_at k\<close> what the clock reads then.
  \<^item> The file system, asked after \<open>k\<close> such interactions: \<open>file_open k name\<close> tells
    whether \<^verbatim>\<open>open(name, "w", encoding="utf-8")\<close> succeeds (it raises \<^verbatim>\<open>OSError\<close>
    otherwise), and \<open>file_store k name t\<close> is None when the encoded text \<open>t\<close> reaches the
    file, and otherwise what the file holds once the write or the close has raised
    \<^verbatim>\<open>OSError\<close>.
\<close>

record 'n world =
  soup :: "pystr \<Rightarrow> 'n"
  select :: "pystr \<Rightarrow> 'n \<Rightarrow> 'n list"
  find_all :: "pystr \<Rightarrow> 'n \<Rightarrow> 'n list"
  find_a_news_tit :: "'n \<Rightarrow> 'n option"
  find_press_class :: "'n \<Rightarrow> 'n option"
  get_text :: "pystr \<Rightarrow> 'n \<Rightarrow> pystr"
  attr :: "'n \<Rightarrow> pystr \<Rightarrow> pystr option"
  quote_plus :: "pystr \<Rightarrow> pystr"
  urlparse_netloc :: "pystr \<Rightarrow> pystr option"
  fromisoformat_kst :: "pystr \<Rightarrow> pystr option"
  html_time_datetime :: "pystr \<Rightarrow> pystr option"
  html_published_time :: "pystr \<Rightarrow> pystr option"
  http_get :: "nat \<Rightarrow> pystr \<Rightarrow> http_result"
  clock_at :: "nat \<Rightarrow> clock"
  file_open :: "nat \<Rightarrow> pystr \<Rightarrow> bool"
  file_store :: "nat \<Rightarrow> pystr \<Rightarrow> pystr \<Rightarrow> pystr option"

text \<open>\<^verbatim>\<open>select_one\<close> and \<^verbatim>\<open>find\<close> return the first result, or None.\<close>

definition select_one :: "'n world \<Rightarrow> pystr \<Rightarrow> 'n \<Rightarrow> 'n option" where
  "select_one W sel n = (case select W sel n of [] \<Rightarrow> None | x # xs \<Rightarrow> Some x)"

definition find_first :: "'n world \<Rightarrow> pystr \<Rightarrow> 'n \<Rightarrow> 'n option" where
  "find_first W name n = (case find_all W name n of [] \<Rightarrow> None | x # xs \<Rightarrow> Some x)"

section \<open>String helpers of the extractor\<close>

text \<open>\<^verbatim>\<open>str.split()\<close> with no argument, \<^verbatim>\<open>sep.join(parts)\<close>, and \<^verbatim>\<open>_clean_text\<close>.\<close>

fun split_ws :: "pystr \<Rightarrow> pystr \<Rightarrow> pystr list" where
  "split_ws w [] = (if w = [] then [] else [w])"
| "split_ws w (c # cs) =
     (if is_space c then (if w = [] then split_ws [] cs else w # split_ws [] cs)
      else split_ws (w @ [c]) cs)"

definition py_split :: "pystr \<Rightarrow> pystr list" where
  "py_split s = split_ws [] s"

fun py_join :: "pystr \<Rightarrow> pystr list \<Rightarrow> pystr" where
  "py_join sep [] = []"
| "py_join sep [x] = x"
| "py_join sep (x # y # ys) = x @ sep @ py_join sep (y # ys)"

definition clean_text :: "pystr \<Rightarrow> pystr" where
  "clean_text s = py_join (asc '' '') (py_split (map (\<lambda>c. if c = 10 \<or> c = 13 then 32 else c) s))"

text \<open>\<^verbatim>\<open>s.replace(old, "")\<close> for a non-empty \<open>old\<close>.\<close>

function py_remove :: "pystr \<Rightarrow> pystr \<Rightarrow> pystr" where
  "py_remove old s =
     (if old = [] then s
      else (case s of
              [] \<Rightarrow> []
            | c # cs \<Rightarrow> (case lit old s of Some r \<Rightarrow> py_remove old r | None \<Rightarrow> c # py_remove old cs)))"
  by pat_completeness auto
termination
  by (relation "measure (\<lambda>(old, s). length s)") (auto simp: lit_Some neq_Nil_conv)

declare py_remove.simps [simp del]

text \<open>\<^verbatim>\<open>s.replace("Z", "+00:00")\<close>.\<close>

definition replace_Z :: "pystr \<Rightarrow> pystr" where
  "replace_Z s = concat (map (\<lambda>c. if c = 90 then asc ''+00:00'' else [c]) s)"

section \<open>The selectors and patterns of the extractor\<close>

definition HEADLINE_SEL :: pystr where
  "HEADLINE_SEL =
     asc ''span.sds-comps-text.sds-comps-text-ellipsis-1.sds-comps-text-type-headline1, '' @
     asc ''span.sds-comps-text.sds-comps-text-ellipsis-2.sds-comps-text-type-headline1, '' @
     asc ''span.sds-comps-text.sds-comps-text-type-headline1, '' @
     asc ''span.sds-comps-text.sds-comps-text-type-headline2''"

definition A_HAS_HEADLINE :: pystr where
  "A_HAS_HEADLINE = asc ''a:has(> '' @ HEADLINE_SEL @ asc '')''"

definition PRESS_SEL :: pystr where
  "PRESS_SEL =
     asc ''div.sds-comps-profile-info-title '' @
     asc ''span.sds-comps-text.sds-comps-text-type-body2.sds-comps-profile-info-title-text, '' @
     asc ''div.sds-comps-profile-info-title a > '' @
     asc ''span.sds-comps-text.sds-comps-text-type-body2''"

text \<open>The keyword of step 4 of the title chain (U+C5EC U+C758 U+C2DC U+C2A4 U+D15C).\<close>

definition KEYWORD :: pystr where
  "KEYWORD = [50668, 51032, 49884, 49828, 53596]"

text \<open>
  \<^verbatim>\<open>DATE_PAT\<close>, the pattern \<^verbatim>\<open>20\d{2}\.\d{1,2}\.\d{1,2}\<close>; the result is the matched text.
\<close>

definition date_pat_at :: "platform \<Rightarrow> pystr \<Rightarrow> pystr option" where
  "date_pat_at P s = do {
     r0 \<leftarrow> lit (asc ''20'') s;
     (yy, r1) \<leftarrow> take_digits P 2 r0;
     r2 \<leftarrow> lit (asc ''.'') r1;
     first_some (\<lambda>(mo, r3). do {
         r4 \<leftarrow> lit (asc ''.'') r3;
         first_some (\<lambda>(d, r5). Some (asc ''20'' @ yy @ asc ''.'' @ mo @ asc ''.'' @ d))
           (digits_1_2 P r4)
       }) (digits_1_2 P r2)
   }"

text \<open>
  The last pattern of \<^verbatim>\<open>_extract_date_from_article\<close>,
  \<^verbatim>\<open>(\d{4})[.\-/](\d{1,2})[.\-/](\d{1,2})\<close>; the result is the three groups.
\<close>

definition date_sep :: "pystr \<Rightarrow> pystr option" where
  "date_sep s = (case s of [] \<Rightarrow> None | c # cs \<Rightarrow> if c = 46 \<or> c = 45 \<or> c = 47 then Some cs else None)"

definition html_ymd_at :: "platform \<Rightarrow> pystr \<Rightarrow> (pystr \<times> pystr \<times> pystr) option" where
  "html_ymd_at P s = do {
     (y, r1) \<leftarrow> take_digits P 4 s;
     r2 \<leftarrow> date_sep r1;
     first_some (\<lambda>(mo, r3). do {
         r4 \<leftarrow> date_sep r3;
         first_some (\<lambda>(d, r5). Some (y, mo, d)) (digits_1_2 P r4)
       }) (digits_1_2 P r2)
   }"

section \<open>The record extractor\<close>

text \<open>
  \<^verbatim>\<open>_extract_title_from_card\<close>. A \<^verbatim>\<open>bs4.Tag\<close> is always true in a condition, so
  \<^verbatim>\<open>if span:\<close> asks whether the element was found; the text of a found element is returned
  even when it is empty.
\<close>

definition news_tit_link :: "'n world \<Rightarrow> 'n \<Rightarrow> 'n option" where
  "news_tit_link W box =
     (case select_one W (asc ''a.news_tit'') box of
        Some a \<Rightarrow> Some a
      | None \<Rightarrow> find_a_news_tit W box)"

fun keyword_link_text :: "'n world \<Rightarrow> 'n list \<Rightarrow> pystr" where
  "keyword_link_text W [] = []"
| "keyword_link_text W (x # xs) =
     (if contains KEYWORD (clean_text (get_text W (asc '' '') x))
         \<and> 10 < length (clean_text (get_text W (asc '' '') x))
      then clean_text (get_text W (asc '' '') x)
      else keyword_link_text W xs)"

definition extract_title_from_card :: "'n world \<Rightarrow> 'n \<Rightarrow> pystr" where
  "extract_title_from_card W box =
     (case select_one W HEADLINE_SEL box of
        Some span \<Rightarrow> clean_text (get_text W (asc '' '') span)
      | None \<Rightarrow>
         (case (case select_one W A_HAS_HEADLINE box of
                  None \<Rightarrow> None
                | Some a \<Rightarrow> select_one W HEADLINE_SEL a) of
            Some sp \<Rightarrow> clean_text (get_text W (asc '' '') sp)
          | None \<Rightarrow>
             (case news_tit_link W box of
                Some a \<Rightarrow> clean_text (get_text W (asc '' '') a)
              | None \<Rightarrow> keyword_link_text W (find_all W (asc ''a'') box))))"

text \<open>\<^verbatim>\<open>_extract_source_from_card\<close>: each step returns only a non-empty text.\<close>

definition press_link :: "'n world \<Rightarrow> 'n \<Rightarrow> 'n option" where
  "press_link W box =
     (case select_one W (asc ''a.info.press'') box of
        Some a \<Rightarrow> Some a
      | None \<Rightarrow> select_one W (asc ''div.info_group > a.info'') box)"

definition source_from_domain :: "'n world \<Rightarrow> pystr \<Rightarrow> pystr" where
  "source_from_domain W link =
     (if link = [] then []
      else (case urlparse_netloc W link of
              None \<Rightarrow> []
            | Some netloc \<Rightarrow>
                if py_remove (asc ''www.'') netloc = [] then []
                else takeWhile (\<lambda>c. c \<noteq> 46) (py_remove (asc ''www.'') netloc)))"

definition source_from_class :: "'n world \<Rightarrow> 'n \<Rightarrow> pystr \<Rightarrow> pystr" where
  "source_from_class W box link =
     (case find_press_class W box of
        None \<Rightarrow> source_from_domain W link
      | Some cand \<Rightarrow>
          if clean_text (get_text W [] cand) \<noteq> [] \<and> length (clean_text (get_text W [] cand)) \<le> 30
          then clean_text (get_text W [] cand)
          else source_from_domain W link)"

definition source_from_press_link :: "'n world \<Rightarrow> 'n \<Rightarrow> pystr \<Rightarrow> pystr" where
  "source_from_press_link W box link =
     (case press_link W box of
        None \<Rightarrow> source_from_class W box link
      | Some a_press \<Rightarrow>
          if clean_text (get_text W [] a_press) \<noteq> [] then clean_text (get_text W [] a_press)
          else source_from_class W box link)"

definition extract_source_from_card :: "'n world \<Rightarrow> 'n \<Rightarrow> pystr \<Rightarrow> pystr" where
  "extract_source_from_card W box link =
     (case select_one W PRESS_SEL box of
        None \<Rightarrow> source_from_press_link W box link
      | Some sp \<Rightarrow>
          if clean_text (get_text W [] sp) \<noteq> [] then clean_text (get_text W [] sp)
          else source_from_press_link W box link)"

text \<open>
  \<^verbatim>\<open>_extract_date_from_article\<close>, given the answer of \<^verbatim>\<open>session.get\<close>: the whole body is
  inside \<^verbatim>\<open>try\<close> with a bare \<^verbatim>\<open>except\<close>, so every failure is the empty string.
\<close>

definition iso_date :: "'n world \<Rightarrow> pystr option \<Rightarrow> pystr option" where
  "iso_date W m = (case m of None \<Rightarrow> None | Some iso_text \<Rightarrow> fromisoformat_kst W (replace_Z iso_text))"

definition html_ymd_date :: "platform \<Rightarrow> pystr \<Rightarrow> pystr" where
  "html_ymd_date P html =
     (case re_search (html_ymd_at P) html of
        None \<Rightarrow> []
      | Some (y, mo, d) \<Rightarrow>
          (case py_int P mo of
             Inl e \<Rightarrow> []
           | Inr mi \<Rightarrow> (case py_int P d of Inl e \<Rightarrow> [] | Inr di \<Rightarrow> dotted y (fmt_02d mi) (fmt_02d di))))"

definition extract_date_from_article :: "platform \<Rightarrow> 'n world \<Rightarrow> http_result \<Rightarrow> pystr" where
  "extract_date_from_article P W r =
     (case r of
        RequestException e \<Rightarrow> []
      | Response status html \<Rightarrow>
          if status \<noteq> 200 then []
          else (case iso_date W (html_time_datetime W html) of
                  Some d \<Rightarrow> d
                | None \<Rightarrow>
                   (case iso_date W (html_published_time W html) of
                      Some d \<Rightarrow> d
                    | None \<Rightarrow> html_ymd_date P html)))"

text \<open>
  The date chain of \<^verbatim>\<open>parse_page\<close>. Each step yields a date text (empty for none) or
  raises, and moves the count of interactions by its readings of the clock and its
  requests. \<open>or_else\<close> is \<^verbatim>\<open>if not date_text: ...\<close>.
\<close>

type_synonym date_step = "(exn + pystr) \<times> nat"

definition or_else :: "date_step \<Rightarrow> (nat \<Rightarrow> date_step) \<Rightarrow> date_step" where
  "or_else r f =
     (case r of
        (Inl e, k) \<Rightarrow> (Inl e, k)
      | (Inr d, k) \<Rightarrow> if d \<noteq> [] then (Inr d, k) else f k)"

text \<open>The two loops over date elements: the first element that yields a date ends the loop.\<close>

fun date_from_spans :: "platform \<Rightarrow> 'n world \<Rightarrow> 'n list \<Rightarrow> nat \<Rightarrow> date_step" where
  "date_from_spans P W [] k = (Inr [], k)"
| "date_from_spans P W (sp # sps) k =
     (case re_search (date_pat_at P) (clean_text (get_text W [] sp)) of
        Some m \<Rightarrow> (Inr m, k)
      | None \<Rightarrow>
         (case normalize_relative_date P (clock_at W k) (clean_text (get_text W [] sp)) of
            Inl e \<Rightarrow> (Inl e, Suc k)
          | Inr rel \<Rightarrow> if rel \<noteq> [] then (Inr rel, Suc k) else date_from_spans P W sps (Suc k)))"

definition date_from_text :: "platform \<Rightarrow> 'n world \<Rightarrow> pystr \<Rightarrow> nat \<Rightarrow> date_step" where
  "date_from_text P W t k =
     (case re_search (date_pat_at P) t of
        Some m \<Rightarrow> (Inr m, k)
      | None \<Rightarrow>
         (case normalize_relative_date P (clock_at W k) t of
            Inl e \<Rightarrow> (Inl e, Suc k)
          | Inr rel \<Rightarrow> (Inr rel, Suc k)))"

definition time_attr_date :: "'n world \<Rightarrow> 'n \<Rightarrow> pystr" where
  "time_attr_date W ttag =
     (case attr W ttag (asc ''datetime'') of
        None \<Rightarrow> []
      | Some dt_attr \<Rightarrow>
          if dt_attr = [] then []
          else (case fromisoformat_kst W (replace_Z dt_attr) of None \<Rightarrow> [] | Some d \<Rightarrow> d))"

definition date_from_time_tag :: "platform \<Rightarrow> 'n world \<Rightarrow> 'n \<Rightarrow> nat \<Rightarrow> date_step" where
  "date_from_time_tag P W box k =
     (case find_first W (asc ''time'') box of
        None \<Rightarrow> (Inr [], k)
      | Some ttag \<Rightarrow>
          if time_attr_date W ttag \<noteq> [] then (Inr (time_attr_date W ttag), k)
          else date_from_text P W (clean_text (get_text W [] ttag)) k)"

definition resolve_date :: "platform \<Rightarrow> 'n world \<Rightarrow> 'n \<Rightarrow> pystr \<Rightarrow> nat \<Rightarrow> date_step" where
  "resolve_date P W box link k =
     or_else
       (or_else
          (or_else
             (or_else
                (date_from_spans P W (select W (asc ''div.info_group > span.info'') box) k)
                (date_from_spans P W
                   (select W
                      (asc ''span.sds-comps-text.sds-comps-text-type-body2.sds-comps-text-weight-sm'')
                      box)))
             (date_from_time_tag P W box))
          (\<lambda>k. if link \<noteq> [] then (Inr (extract_date_from_url P link), k) else (Inr [], k)))
       (\<lambda>k. if link \<noteq> [] then (Inr (extract_date_from_article P W (http_get W k link)), Suc k)
            else (Inr [], k))"

text \<open>
  One row of the result (the dict with the keys Title, Date, Source, Link), and the body of
  the loop of \<^verbatim>\<open>parse_page\<close> for one container: None is \<^verbatim>\<open>continue\<close>.
\<close>

record row =
  Title :: pystr
  Date :: pystr
  Source :: pystr
  Link :: pystr

definition link_element :: "'n world \<Rightarrow> 'n \<Rightarrow> 'n option" where
  "link_element W box =
     (case select_one W A_HAS_HEADLINE box of
        Some a \<Rightarrow> Some a
      | None \<Rightarrow>
         (case news_tit_link W box of
            Some a \<Rightarrow> Some a
          | None \<Rightarrow> find_first W (asc ''a'') box))"

definition href_of :: "'n world \<Rightarrow> 'n \<Rightarrow> pystr" where
  "href_of W a = py_strip (case attr W a (asc ''href'') of None \<Rightarrow> [] | Some v \<Rightarrow> v)"

definition parse_box :: "platform \<Rightarrow> 'n world \<Rightarrow> 'n \<Rightarrow> nat \<Rightarrow> (exn + row option) \<times> nat" where
  "parse_box P W box k =
     (if extract_title_from_card W box = [] then (Inr None, k)
      else (case link_element W box of
              None \<Rightarrow> (Inr None, k)
            | Some a \<Rightarrow>
                if href_of W a = [] then (Inr None, k)
                else (case resolve_date P W box (href_of W a) k of
                        (Inl e, k') \<Rightarrow> (Inl e, k')
                      | (Inr date_text, k') \<Rightarrow>
                          (Inr (Some \<lparr>Title = extract_title_from_card W box,
                                      Date = date_text,
                                      Source = extract_source_from_card W box (href_of W a),
                                      Link = href_of W a\<rparr>), k'))))"

fun parse_boxes :: "platform \<Rightarrow> 'n world \<Rightarrow> 'n list \<Rightarrow> nat \<Rightarrow> (exn + row list) \<times> nat" where
  "parse_boxes P W [] k = (Inr [], k)"
| "parse_boxes P W (box # boxes) k =
     (case parse_box P W box k of
        (Inl e, k') \<Rightarrow> (Inl e, k')
      | (Inr r, k') \<Rightarrow>
         (case parse_boxes P W boxes k' of
            (Inl e, k'') \<Rightarrow> (Inl e, k'')
          | (Inr rows, k'') \<Rightarrow> (Inr (case r of None \<Rightarrow> rows | Some x \<Rightarrow> x # rows), k'')))"

definition containers :: "'n world \<Rightarrow> 'n \<Rightarrow> 'n list" where
  "containers W doc =
     (if select W (asc ''ul.list_news > li.bx'') doc \<noteq> []
      then select W (asc ''ul.list_news > li.bx'') doc
      else select W
             (asc ''div.news_area, div.sds-comps-base-layout, div.sds-comps-vertical-layout'')
             doc)"

definition parse_page :: "platform \<Rightarrow> 'n world \<Rightarrow> pystr \<Rightarrow> nat \<Rightarrow> (exn + row list) \<times> nat" where
  "parse_page P W html k = parse_boxes P W (containers W (soup W html)) k"

section \<open>The pagination driver\<close>

text \<open>
  The arguments of \<^verbatim>\<open>crawl\<close>. The delay bounds \<^verbatim>\<open>sleep_range\<close> are floats that only
  feed \<^verbatim>\<open>random.uniform\<close> and \<^verbatim>\<open>time.sleep\<close>; the model counts the sleeps and leaves
  their length out (both callers use the default bounds 1.0 and 2.0, with which
  \<^verbatim>\<open>time.sleep\<close> cannot raise).
\<close>

record query =
  search_term :: pystr
  start_date :: pystr
  end_date :: pystr
  sort_value :: int
  max_pages :: int

text \<open>\<^verbatim>\<open>build_url\<close>, and the period \<^verbatim>\<open>nso_period\<close> that \<^verbatim>\<open>crawl\<close> computes once.\<close>

definition build_url :: "pystr \<Rightarrow> int \<Rightarrow> pystr \<Rightarrow> pystr \<Rightarrow> pystr \<Rightarrow> int \<Rightarrow> pystr" where
  "build_url encoded_query sort_code start_d end_d nso_period start_offset =
     asc ''https://search.naver.com/search.naver?'' @
     asc ''where=news&sm=tab_pge&sort='' @ py_str_int sort_code @ asc ''&photo=0&field=0'' @
     asc ''&query='' @ encoded_query @
     asc ''&pd=3'' @
     asc ''&ds='' @ start_d @ asc ''&de='' @ end_d @
     asc ''&nso=so%3Ar%2Cp%3A'' @ nso_period @
     asc ''&start='' @ py_str_int start_offset"

definition nso_period_of :: "query \<Rightarrow> pystr" where
  "nso_period_of Q =
     asc ''from'' @ filter (\<lambda>c. c \<noteq> 46) (start_date Q) @ asc ''to'' @ filter (\<lambda>c. c \<noteq> 46) (end_date Q)"

definition page_url :: "'n world \<Rightarrow> query \<Rightarrow> int \<Rightarrow> pystr" where
  "page_url W Q start_offset =
     build_url (quote_plus W (search_term Q)) (sort_value Q) (start_date Q) (end_date Q)
       (nso_period_of Q) start_offset"

text \<open>
  The state of one run of \<^verbatim>\<open>crawl\<close>: its local variables, and what it has done to the
  world: the messages given to \<^verbatim>\<open>log\<close> (in order), the URLs it has requested itself, the
  number of sleeps, the files it has written, and the count of interactions with the
  network and the clock (its own requests and those of the extractor).
\<close>

record crawl_state =
  titles :: "pystr list"
  dates :: "pystr list"
  sources :: "pystr list"
  links :: "pystr list"
  seen_links :: "pystr set"
  start :: int
  page_count :: int
  tick :: nat
  log_lines :: "pystr list"
  requests :: "pystr list"
  sleeps :: nat
  files :: "pystr \<rightharpoonup> pystr"

definition initial_state :: "(pystr \<rightharpoonup> pystr) \<Rightarrow> nat \<Rightarrow> crawl_state" where
  "initial_state fs k =
     \<lparr>titles = [], dates = [], sources = [], links = [], seen_links = {}, start = 1,
      page_count = 0, tick = k, log_lines = [], requests = [], sleeps = 0, files = fs\<rparr>"

text \<open>The messages of \<^verbatim>\<open>crawl\<close>, with their Korean words as code points.\<close>

definition msg_max_pages :: "int \<Rightarrow> pystr" where
  "msg_max_pages m =
     [50504, 51204, 32, 51333, 47308, 58, 32] @ asc ''max_pages('' @ py_str_int m
       @ asc '') '' @ [52488, 44284]"

definition msg_request :: "pystr \<Rightarrow> pystr" where
  "msg_request url = asc ''['' @ [50836, 52397] @ asc ''] '' @ url"

definition msg_status :: "int \<Rightarrow> int \<Rightarrow> pystr" where
  "msg_status status start_offset =
     [50836, 52397, 32, 49892, 54056] @ asc ''(status='' @ py_str_int status
       @ asc '') start='' @ py_str_int start_offset"

definition msg_exception :: "pystr \<Rightarrow> pystr" where
  "msg_exception e = [50836, 52397, 32, 50696, 50808] @ asc '': '' @ e"

definition msg_no_rows :: "int \<Rightarrow> pystr" where
  "msg_no_rows start_offset =
     [54168, 51060, 51648] @ asc '' start='' @ py_str_int start_offset @ asc '' ''
       @ [44592, 49324, 32, 50630, 51020] @ asc ''. debug_naver.html '' @ [54869, 51064]"

definition msg_page :: "int \<Rightarrow> nat \<Rightarrow> nat \<Rightarrow> pystr" where
  "msg_page start_offset n_rows new_cnt =
     [54168, 51060, 51648] @ asc ''(start='' @ py_str_int start_offset @ asc '') ''
       @ [49688, 51665, 32] @ py_str_int (int n_rows) @ [44148] @ asc '' / '' @ [49888, 44508, 32]
       @ py_str_int (int new_cnt) @ [44148]"

definition msg_nothing_new :: pystr where
  "msg_nothing_new =
     [49888, 44508, 32, 54637, 47785, 32, 50630, 51020, 32, 8594, 32, 51312, 44592, 32, 51333, 47308]"

definition do_log :: "pystr \<Rightarrow> crawl_state \<Rightarrow> crawl_state" where
  "do_log m s = s\<lparr>log_lines := log_lines s @ [m]\<rparr>"

text \<open>
  The loop over the rows of one page: a row whose link is empty or already seen is passed
  over; any other row is appended to the four lists and counted.
\<close>

fun admit_rows :: "row list \<Rightarrow> crawl_state \<Rightarrow> nat \<Rightarrow> crawl_state \<times> nat" where
  "admit_rows [] s new_cnt = (s, new_cnt)"
| "admit_rows (r # rs) s new_cnt =
     (if Link r = [] \<or> Link r \<in> seen_links s then admit_rows rs s new_cnt
      else admit_rows rs
             (s\<lparr>seen_links := insert (Link r) (seen_links s),
                titles := titles s @ [Title r],
                dates := dates s @ [Date r],
                sources := sources s @ [Source r],
                links := links s @ [Link r]\<rparr>)
             (Suc new_cnt))"

text \<open>
  The block \<^verbatim>\<open>with open(name, "w", encoding="utf-8") as f: f.write(text)\<close>. Opening
  may raise \<^verbatim>\<open>OSError\<close>, and then the file is as it was; once open, the file is empty.
  \<^verbatim>\<open>f.write\<close> encodes the whole text before any of it reaches the file, and UTF-8
  encodes every code point but the surrogates (U+D800 to U+DFFF), which the text of a
  response can hold: \<^verbatim>\<open>UnicodeEncodeError\<close>, and the file stays empty. The write and
  the close can still raise \<^verbatim>\<open>OSError\<close>. The result is the exception, if any, and the
  files afterwards.
\<close>

definition utf8_encodable :: "pystr \<Rightarrow> bool" where
  "utf8_encodable t = list_all (\<lambda>c. c < 55296 \<or> 57343 < c) t"

definition write_text ::
  "'n world \<Rightarrow> nat \<Rightarrow> pystr \<Rightarrow> pystr \<Rightarrow> (pystr \<rightharpoonup> pystr) \<Rightarrow> exn option \<times> (pystr \<rightharpoonup> pystr)" where
  "write_text W k name t fs =
     (if \<not> file_open W k name then (Some OSError, fs)
      else if \<not> utf8_encodable t then (Some UnicodeEncodeError, fs(name \<mapsto> []))
      else (case file_store W k name t of
              None \<Rightarrow> (None, fs(name \<mapsto> t))
            | Some kept \<Rightarrow> (Some OSError, fs(name \<mapsto> kept))))"

text \<open>
  One pass through the body of \<^verbatim>\<open>while True\<close>, in the order of the source, and how it
  ends: with the next pass, with \<^verbatim>\<open>break\<close>, or with an exception that nothing in
  \<^verbatim>\<open>crawl\<close> catches.
\<close>

datatype pass_end = Continue | Break | Raised exn

definition after_rows :: "row list \<Rightarrow> crawl_state \<times> nat \<Rightarrow> pass_end \<times> crawl_state" where
  "after_rows rows sn =
     (case sn of (s, new_cnt) \<Rightarrow>
        if new_cnt = 0
        then (Break,
              do_log msg_nothing_new
                ((do_log (msg_page (start s) (length rows) new_cnt) s)
                   \<lparr>start := start s + 10, sleeps := Suc (sleeps s)\<rparr>))
        else (Continue,
              (do_log (msg_page (start s) (length rows) new_cnt) s)
                \<lparr>start := start s + 10, sleeps := Suc (sleeps s)\<rparr>))"

definition after_parse ::
  "'n world \<Rightarrow> pystr \<Rightarrow> (exn + row list) \<times> nat \<Rightarrow> crawl_state \<Rightarrow> pass_end \<times> crawl_state" where
  "after_parse W body pr s =
     (case pr of
        (Inl e, k) \<Rightarrow> (Raised e, s\<lparr>tick := k\<rparr>)
      | (Inr rows, k) \<Rightarrow>
          if rows = []
          then (case write_text W k (asc ''debug_naver.html'') body (files s) of
                  (Some e, fs) \<Rightarrow> (Raised e, s\<lparr>tick := k, files := fs\<rparr>)
                | (None, fs) \<Rightarrow>
                    (Break, do_log (msg_no_rows (start s)) (s\<lparr>tick := k, files := fs\<rparr>)))
          else after_rows rows (admit_rows rows (s\<lparr>tick := k\<rparr>) 0))"

definition after_request :: "platform \<Rightarrow> 'n world \<Rightarrow> http_result \<Rightarrow> crawl_state \<Rightarrow> pass_end \<times> crawl_state" where
  "after_request P W r s =
     (case r of
        RequestException e \<Rightarrow> (Break, do_log (msg_exception e) s)
      | Response status body \<Rightarrow>
          if status \<noteq> 200 then (Break, do_log (msg_status status (start s)) s)
          else after_parse W body (parse_page P W body (tick s)) s)"

definition issue_request :: "'n world \<Rightarrow> query \<Rightarrow> crawl_state \<Rightarrow> crawl_state" where
  "issue_request W Q s =
     (do_log (msg_request (page_url W Q (start s))) (s\<lparr>page_count := page_count s + 1\<rparr>))
       \<lparr>requests := requests s @ [page_url W Q (start s)], tick := Suc (tick s)\<rparr>"

definition crawl_page :: "platform \<Rightarrow> 'n world \<Rightarrow> query \<Rightarrow> crawl_state \<Rightarrow> pass_end \<times> crawl_state" where
  "crawl_page P W Q s =
     (if max_pages Q < page_count s + 1
      then (Break, do_log (msg_max_pages (max_pages Q)) (s\<lparr>page_count := page_count s + 1\<rparr>))
      else after_request P W (http_get W (tick s) (page_url W Q (start s))) (issue_request W Q s))"

lemma admit_rows_frame:
  "admit_rows rs s n = (s', n') \<Longrightarrow>
   start s' = start s \<and> page_count s' = page_count s \<and> tick s' = tick s
   \<and> log_lines s' = log_lines s \<and> requests s' = requests s \<and> sleeps s' = sleeps s
   \<and> files s' = files s"
  by (induction rs s n rule: admit_rows.induct) (auto split: if_splits)

lemma after_rows_frame:
  "after_rows rows (s, n) = (e, s') \<Longrightarrow>
   page_count s' = page_count s \<and> requests s' = requests s \<and> tick s' = tick s
   \<and> files s' = files s \<and> start s' = start s + 10
   \<and> titles s' = titles s \<and> dates s' = dates s \<and> sources s' = sources s \<and> links s' = links s
   \<and> seen_links s' = seen_links s"
  by (auto simp: after_rows_def do_log_def split: if_splits)

lemma after_parse_frame:
  assumes "after_parse W body pr s = (e, s')"
  shows "page_count s' = page_count s \<and> requests s' = requests s \<and> tick s' = snd pr"
proof (cases pr)
  case (Pair res k)
  show ?thesis
  proof (cases res)
    case (Inl ex)
    with Pair assms show ?thesis by (auto simp: after_parse_def)
  next
    case (Inr rows)
    show ?thesis
    proof (cases "rows = []")
      case True
      with Pair Inr assms show ?thesis
        by (auto simp: after_parse_def do_log_def split: prod.splits option.splits)
    next
      case False
      obtain s1 n1 where a: "admit_rows rows (s\<lparr>tick := k\<rparr>) 0 = (s1, n1)"
        by (cases "admit_rows rows (s\<lparr>tick := k\<rparr>) 0") auto
      with Pair Inr False assms have "after_rows rows (s1, n1) = (e, s')"
        by (simp add: after_parse_def)
      from after_rows_frame [OF this] admit_rows_frame [OF a] Pair show ?thesis by simp
    qed
  qed
qed

lemma after_request_frame:
  "after_request P W r s = (e, s') \<Longrightarrow> page_count s' = page_count s \<and> requests s' = requests s"
  by (auto simp: after_request_def do_log_def split: http_result.splits if_splits
      dest: after_parse_frame)

lemma crawl_page_Continue:
  assumes "crawl_page P W Q s = (Continue, s')"
  shows "page_count s' = page_count s + 1 \<and> page_count s + 1 \<le> max_pages Q"
proof (cases "max_pages Q < page_count s + 1")
  case True
  with assms show ?thesis by (simp add: crawl_page_def)
next
  case False
  with assms have "after_request P W (http_get W (tick s) (page_url W Q (start s)))
             (issue_request W Q s) = (Continue, s')"
    by (simp add: crawl_page_def)
  from after_request_frame [OF this] False show ?thesis
    by (simp add: issue_request_def do_log_def)
qed

text \<open>
  \<^verbatim>\<open>crawl\<close>: the loop runs until a pass ends it. It returns the four lists, or passes on
  the exception; either way the state tells what was done.
\<close>

function crawl_loop ::
  "platform \<Rightarrow> 'n world \<Rightarrow> query \<Rightarrow> crawl_state
     \<Rightarrow> (exn + pystr list \<times> pystr list \<times> pystr list \<times> pystr list) \<times> crawl_state" where
  "crawl_loop P W Q s =
     (case crawl_page P W Q s of
        (Continue, s') \<Rightarrow> crawl_loop P W Q s'
      | (Break, s') \<Rightarrow> (Inr (titles s', dates s', sources s', links s'), s')
      | (Raised e, s') \<Rightarrow> (Inl e, s'))"
  by pat_completeness auto
termination
  by (relation "measure (\<lambda>(P, W, Q, s). nat (max_pages Q - page_count s))")
     (auto dest: crawl_page_Continue [OF sym])

declare crawl_loop.simps [simp del]

definition crawl ::
  "platform \<Rightarrow> 'n world \<Rightarrow> query \<Rightarrow> (pystr \<rightharpoonup> pystr) \<Rightarrow> nat
     \<Rightarrow> (exn + pystr list \<times> pystr list \<times> pystr list \<times> pystr list) \<times> crawl_state" where
  "crawl P W Q fs k = crawl_loop P W Q (initial_state fs k)"

text \<open>
  The records that a run admits, stated apart from the loop over the rows, to compare the
  four lists with. \<open>admitted_records seen rows\<close> are the records of one page that are
  admitted when the links \<open>seen\<close> have been seen before it: going through the page in
  order, a record is admitted when its link is not empty and is not among the links seen
  so far, and its link is seen from then on. \<open>pass_rows\<close> are the records that the pass
  starting in a state has to decide on, those of \<^verbatim>\<open>parse_page(resp.text)\<close>; there are
  none when the pass ends before it has them. \<open>run_records\<close> are the admitted records of
  the passes of a run from a state on, one pass after the other, with the links seen so
  far: the records of the run in the order of admission.
\<close>

fun admitted_records :: "pystr set \<Rightarrow> row list \<Rightarrow> row list" where
  "admitted_records seen [] = []"
| "admitted_records seen (r # rs) =
     (if Link r = [] \<or> Link r \<in> seen then admitted_records seen rs
      else r # admitted_records (insert (Link r) seen) rs)"

definition pass_rows :: "platform \<Rightarrow> 'n world \<Rightarrow> query \<Rightarrow> crawl_state \<Rightarrow> row list" where
  "pass_rows P W Q s =
     (if max_pages Q < page_count s + 1 then []
      else case http_get W (tick s) (page_url W Q (start s)) of
             RequestException e \<Rightarrow> []
           | Response status body \<Rightarrow>
               if status \<noteq> 200 then []
               else (case fst (parse_page P W body (Suc (tick s))) of
                       Inl e \<Rightarrow> []
                     | Inr rows \<Rightarrow> rows))"

function run_records ::
  "platform \<Rightarrow> 'n world \<Rightarrow> query \<Rightarrow> pystr set \<Rightarrow> crawl_state \<Rightarrow> row list" where
  "run_records P W Q seen s =
     admitted_records seen (pass_rows P W Q s)
     @ (case crawl_page P W Q s of
          (Continue, s') \<Rightarrow>
            run_records P W Q
              (seen \<union> set (map Link (admitted_records seen (pass_rows P W Q s)))) s'
        | (Break, s') \<Rightarrow> []
        | (Raised e, s') \<Rightarrow> [])"
  by pat_completeness auto
termination
  by (relation "measure (\<lambda>(P, W, Q, seen, s). nat (max_pages Q - page_count s))")
     (auto dest: crawl_page_Continue [OF sym])

declare run_records.simps [simp del]

definition crawl_records ::
  "platform \<Rightarrow> 'n world \<Rightarrow> query \<Rightarrow> (pystr \<rightharpoonup> pystr) \<Rightarrow> nat \<Rightarrow> row list" where
  "crawl_records P W Q fs k = run_records P W Q {} (initial_state fs k)"

section \<open>Facts about one pass and about the loop\<close>

lemma crawl_page_max:
  "max_pages Q < page_count s + 1 \<Longrightarrow>
   crawl_page P W Q s
     = (Break, do_log (msg_max_pages (max_pages Q)) (s\<lparr>page_count := page_count s + 1\<rparr>))"
  by (simp add: crawl_page_def)

lemma crawl_page_request:
  "page_count s + 1 \<le> max_pages Q \<Longrightarrow>
   crawl_page P W Q s
     = after_request P W (http_get W (tick s) (page_url W Q (start s))) (issue_request W Q s)"
  by (simp add: crawl_page_def)

lemma issue_request_fields:
  "titles (issue_request W Q s) = titles s" "dates (issue_request W Q s) = dates s"
  "sources (issue_request W Q s) = sources s" "links (issue_request W Q s) = links s"
  "seen_links (issue_request W Q s) = seen_links s" "start (issue_request W Q s) = start s"
  "page_count (issue_request W Q s) = page_count s + 1" "tick (issue_request W Q s) = Suc (tick s)"
  "requests (issue_request W Q s) = requests s @ [page_url W Q (start s)]"
  "sleeps (issue_request W Q s) = sleeps s" "files (issue_request W Q s) = files s"
  "log_lines (issue_request W Q s) = log_lines s @ [msg_request (page_url W Q (start s))]"
  by (simp_all add: issue_request_def do_log_def)

lemma do_log_fields:
  "titles (do_log m s) = titles s" "dates (do_log m s) = dates s"
  "sources (do_log m s) = sources s" "links (do_log m s) = links s"
  "seen_links (do_log m s) = seen_links s" "start (do_log m s) = start s"
  "page_count (do_log m s) = page_count s" "tick (do_log m s) = tick s"
  "requests (do_log m s) = requests s" "sleeps (do_log m s) = sleeps s"
  "files (do_log m s) = files s" "log_lines (do_log m s) = log_lines s @ [m]"
  by (simp_all add: do_log_def)

lemma crawl_loop_Continue:
  "crawl_page P W Q s = (Continue, s') \<Longrightarrow> crawl_loop P W Q s = crawl_loop P W Q s'"
  by (subst crawl_loop.simps) simp

lemma crawl_loop_Break:
  "crawl_page P W Q s = (Break, s') \<Longrightarrow>
   crawl_loop P W Q s = (Inr (titles s', dates s', sources s', links s'), s')"
  by (subst crawl_loop.simps) simp

lemma crawl_loop_Raised:
  "crawl_page P W Q s = (Raised e, s') \<Longrightarrow> crawl_loop P W Q s = (Inl e, s')"
  by (subst crawl_loop.simps) simp

text \<open>
  The proof rule of the loop: a property \<open>H\<close> of the states at the head of the loop that
  every continuing pass keeps, and a property \<open>F\<close> of the outcome that every ending pass
  from such a state establishes.
\<close>

lemma crawl_loop_rule:
  assumes "H s"
    and step: "\<And>s s'. H s \<Longrightarrow> crawl_page P W Q s = (Continue, s') \<Longrightarrow> H s'"
    and fin: "\<And>s e s'. H s \<Longrightarrow> crawl_page P W Q s = (e, s') \<Longrightarrow> e \<noteq> Continue \<Longrightarrow>
                F (crawl_loop P W Q s)"
  shows "F (crawl_loop P W Q s)"
  using assms
proof (induction P W Q s rule: crawl_loop.induct)
  case (1 P W Q s)
  note H = "1.prems"(1) and step = "1.prems"(2) and fin = "1.prems"(3)
  obtain e s' where cp: "crawl_page P W Q s = (e, s')" by (cases "crawl_page P W Q s") auto
  show ?case
  proof (cases "e = Continue")
    case True
    with cp have c: "crawl_page P W Q s = (Continue, s')" by simp
    have "H s'" using step [OF H c] .
    then have "F (crawl_loop P W Q s')"
      using "1.IH" [OF c [symmetric] refl] step fin by blast
    then show ?thesis using crawl_loop_Continue [OF c] by simp
  next
    case False
    then show ?thesis using fin [OF H cp] by simp
  qed
qed

lemma crawl_loop_result:
  "fst (crawl_loop P W Q s) = Inr (t, d, so, l) \<Longrightarrow>
   t = titles (snd (crawl_loop P W Q s)) \<and> d = dates (snd (crawl_loop P W Q s))
   \<and> so = sources (snd (crawl_loop P W Q s)) \<and> l = links (snd (crawl_loop P W Q s))"
proof (induction P W Q s rule: crawl_loop.induct)
  case (1 P W Q s)
  obtain e s' where cp: "crawl_page P W Q s = (e, s')" by (cases "crawl_page P W Q s") auto
  show ?case
  proof (cases e)
    case Continue
    with cp have c: "crawl_page P W Q s = (Continue, s')" by simp
    show ?thesis
      using "1.IH" [OF c [symmetric] refl] "1.prems" crawl_loop_Continue [OF c] by simp
  next
    case Break
    with cp "1.prems" show ?thesis by (simp add: crawl_loop_Break)
  next
    case (Raised x)
    with cp "1.prems" show ?thesis by (simp add: crawl_loop_Raised)
  qed
qed

text \<open>
  \<open>admits s s' adm\<close>: the state \<open>s'\<close> has the lists of \<open>s\<close> with one element more for each
  row of \<open>adm\<close>, in order; the links of \<open>adm\<close> are new, non-empty and different from each
  other, and they are what the set of seen links has gained.
\<close>

definition admits :: "crawl_state \<Rightarrow> crawl_state \<Rightarrow> row list \<Rightarrow> bool" where
  "admits s s' adm =
     (titles s' = titles s @ map Title adm \<and> dates s' = dates s @ map Date adm
      \<and> sources s' = sources s @ map Source adm \<and> links s' = links s @ map Link adm
      \<and> seen_links s' = seen_links s \<union> set (map Link adm)
      \<and> distinct (map Link adm) \<and> set (map Link adm) \<inter> seen_links s = {}
      \<and> [] \<notin> set (map Link adm))"

lemma admits_refl: "admits s s []"
  by (simp add: admits_def)

lemma admits_same:
  "titles s' = titles s \<Longrightarrow> dates s' = dates s \<Longrightarrow> sources s' = sources s \<Longrightarrow>
   links s' = links s \<Longrightarrow> seen_links s' = seen_links s \<Longrightarrow> admits s s' []"
  by (simp add: admits_def)

lemma admit_rows_admits:
  "admit_rows rs s n = (s', n') \<Longrightarrow>
   \<exists>adm. admits s s' adm \<and> n' = n + length adm \<and> set adm \<subseteq> set rs"
proof (induction rs s n rule: admit_rows.induct)
  case (1 s n)
  then have "admits s s' [] \<and> n' = n + length ([] :: row list)" by (simp add: admits_def)
  then show ?case by (intro exI [of _ "[]"]) simp
next
  case (2 r rs s n)
  show ?case
  proof (cases "Link r = [] \<or> Link r \<in> seen_links s")
    case True
    with 2 obtain adm where "admits s s' adm" "n' = n + length adm" "set adm \<subseteq> set rs"
      by auto
    then show ?thesis by (intro exI [of _ adm]) auto
  next
    case False
    let ?s2 = "s\<lparr>seen_links := insert (Link r) (seen_links s),
                titles := titles s @ [Title r],
                dates := dates s @ [Date r],
                sources := sources s @ [Source r],
                links := links s @ [Link r]\<rparr>"
    from False "2.prems" have "admit_rows rs ?s2 (Suc n) = (s', n')" by simp
    from "2.IH"(2) [OF False this] obtain adm where
      a: "admits ?s2 s' adm" and n: "n' = Suc n + length adm" and sub: "set adm \<subseteq> set rs"
      by auto
    have "admits s s' (r # adm)"
      using a False unfolding admits_def by auto
    moreover have "n' = n + length (r # adm)" using n by simp
    moreover have "set (r # adm) \<subseteq> set (r # rs)" using sub by auto
    ultimately show ?thesis by blast
  qed
qed

lemma admit_rows_dups:
  "\<forall>r\<in>set rs. Link r = [] \<or> Link r \<in> seen_links s \<Longrightarrow> admit_rows rs s n = (s, n)"
  by (induction rs) auto

lemma after_rows_admits:
  "after_rows rows (s, n) = (e, s') \<Longrightarrow> admits s s' [] \<and> (e = Break \<longleftrightarrow> n = 0) \<and> e \<noteq> Raised x"
  by (auto simp: after_rows_def do_log_def admits_def split: if_splits)

lemma admits_trans_nil: "admits s s1 adm \<Longrightarrow> admits s1 s' [] \<Longrightarrow> admits s s' adm"
  by (auto simp: admits_def)

lemma nil_admits_trans: "admits s s1 [] \<Longrightarrow> admits s1 s' adm \<Longrightarrow> admits s s' adm"
  by (auto simp: admits_def)

lemma after_parse_admits:
  assumes "after_parse W body pr s = (e, s')"
  shows "\<exists>adm. admits s s' adm"
proof (cases pr)
  case (Pair res k)
  show ?thesis
  proof (cases res)
    case (Inl ex)
    with Pair assms have "admits s s' []" by (auto simp: after_parse_def admits_def)
    then show ?thesis by blast
  next
    case (Inr rows)
    show ?thesis
    proof (cases "rows = []")
      case True
      with Pair Inr assms have "admits s s' []"
        by (auto simp: after_parse_def do_log_def admits_def split: prod.splits option.splits)
      then show ?thesis by blast
    next
      case False
      obtain s1 n1 where a: "admit_rows rows (s\<lparr>tick := k\<rparr>) 0 = (s1, n1)"
        by (cases "admit_rows rows (s\<lparr>tick := k\<rparr>) 0") auto
      with Pair Inr False assms have r: "after_rows rows (s1, n1) = (e, s')"
        by (simp add: after_parse_def)
      from admit_rows_admits [OF a] obtain adm where "admits (s\<lparr>tick := k\<rparr>) s1 adm" by blast
      then have "admits s s1 adm" by (simp add: admits_def)
      with after_rows_admits [OF r] have "admits s s' adm"
        using admits_trans_nil by blast
      then show ?thesis by blast
    qed
  qed
qed

lemma after_request_admits:
  assumes "after_request P W r s = (e, s')"
  shows "\<exists>adm. admits s s' adm"
proof (cases r)
  case (RequestException m)
  with assms have "admits s s' []" by (auto simp: after_request_def do_log_def admits_def)
  then show ?thesis by blast
next
  case (Response status body)
  show ?thesis
  proof (cases "status = 200")
    case False
    with Response assms have "admits s s' []"
      by (auto simp: after_request_def do_log_def admits_def)
    then show ?thesis by blast
  next
    case True
    with Response assms show ?thesis
      by (auto simp: after_request_def dest: after_parse_admits)
  qed
qed

lemma crawl_page_admits:
  assumes "crawl_page P W Q s = (e, s')"
  shows "\<exists>adm. admits s s' adm"
proof (cases "max_pages Q < page_count s + 1")
  case True
  with assms have "admits s s' []"
    by (auto simp: crawl_page_def do_log_def admits_def)
  then show ?thesis by blast
next
  case False
  with assms have "after_request P W (http_get W (tick s) (page_url W Q (start s)))
      (issue_request W Q s) = (e, s')"
    by (simp add: crawl_page_def)
  from after_request_admits [OF this] obtain adm where "admits (issue_request W Q s) s' adm"
    by blast
  then have "admits s s' adm" by (simp add: admits_def issue_request_fields)
  then show ?thesis by blast
qed

text \<open>The invariant of the accumulator.\<close>

definition accumulated :: "crawl_state \<Rightarrow> bool" where
  "accumulated s =
     ((\<exists>rs :: row list. titles s = map Title rs \<and> dates s = map Date rs \<and> sources s = map Source rs
          \<and> links s = map Link rs)
      \<and> distinct (links s) \<and> seen_links s = set (links s) \<and> [] \<notin> set (links s))"

lemma accumulated_initial: "accumulated (initial_state fs k)"
  by (simp add: accumulated_def initial_state_def)

lemma accumulated_admits:
  assumes "accumulated s" "admits s s' adm"
  shows "accumulated s'"
proof -
  from assms(1) obtain rs :: "row list" where rs: "titles s = map Title rs" "dates s = map Date rs"
    "sources s = map Source rs" "links s = map Link rs"
    and d: "distinct (links s)" "seen_links s = set (links s)" "[] \<notin> set (links s)"
    by (auto simp: accumulated_def)
  have "titles s' = map Title (rs @ adm) \<and> dates s' = map Date (rs @ adm)
        \<and> sources s' = map Source (rs @ adm) \<and> links s' = map Link (rs @ adm)"
    using rs assms(2) by (simp add: admits_def)
  then have 1: "\<exists>rs :: row list. titles s' = map Title rs \<and> dates s' = map Date rs \<and> sources s' = map Source rs
          \<and> links s' = map Link rs" by blast
  have 2: "distinct (links s')" using d assms(2) by (auto simp: admits_def)
  have 3: "seen_links s' = set (links s')" using d assms(2) by (auto simp: admits_def)
  have 4: "[] \<notin> set (links s')" using d assms(2) by (auto simp: admits_def)
  from 1 2 3 4 show ?thesis unfolding accumulated_def by blast
qed

lemma accumulated_crawl_page:
  "accumulated s \<Longrightarrow> crawl_page P W Q s = (e, s') \<Longrightarrow> accumulated s'"
  using crawl_page_admits accumulated_admits by blast

lemma accumulated_crawl_loop:
  assumes "accumulated s"
  shows "accumulated (snd (crawl_loop P W Q s))"
proof -
  have "(\<lambda>res. accumulated (snd res)) (crawl_loop P W Q s)"
  proof (rule crawl_loop_rule [where H = accumulated])
    show "accumulated s" by fact
  next
    fix s s' assume "accumulated s" "crawl_page P W Q s = (Continue, s')"
    then show "accumulated s'" by (rule accumulated_crawl_page)
  next
    fix s e s' assume a: "accumulated s" "crawl_page P W Q s = (e, s')" "e \<noteq> Continue"
    then have s': "accumulated s'" using accumulated_crawl_page by blast
    from a(2,3) have "snd (crawl_loop P W Q s) = s'"
      by (cases e) (simp_all add: crawl_loop_Break crawl_loop_Raised)
    with s' show "accumulated (snd (crawl_loop P W Q s))" by simp
  qed
  then show ?thesis by simp
qed

text \<open>The four lists against the admitted records: one page, one pass, the run.\<close>

lemma admit_rows_records:
  "admit_rows rs s n = (s', n') \<Longrightarrow>
   admits s s' (admitted_records (seen_links s) rs)
   \<and> n' = n + length (admitted_records (seen_links s) rs)"
proof (induction rs s n rule: admit_rows.induct)
  case (1 s n)
  then show ?case by (simp add: admits_def)
next
  case (2 r rs s n)
  show ?case
  proof (cases "Link r = [] \<or> Link r \<in> seen_links s")
    case True
    with 2 show ?thesis by simp
  next
    case False
    let ?s2 = "s\<lparr>seen_links := insert (Link r) (seen_links s),
                titles := titles s @ [Title r],
                dates := dates s @ [Date r],
                sources := sources s @ [Source r],
                links := links s @ [Link r]\<rparr>"
    let ?adm = "admitted_records (insert (Link r) (seen_links s)) rs"
    from False "2.prems" have "admit_rows rs ?s2 (Suc n) = (s', n')" by simp
    from "2.IH"(2) [OF False this]
    have a: "admits ?s2 s' ?adm" and n: "n' = Suc n + length ?adm" by simp_all
    have "admits s s' (r # ?adm)"
      using a False unfolding admits_def by auto
    with n False show ?thesis by simp
  qed
qed

lemma after_parse_records:
  assumes "after_parse W body pr s = (e, s')"
  shows "admits s s'
           (admitted_records (seen_links s) (case fst pr of Inl x \<Rightarrow> [] | Inr rows \<Rightarrow> rows))"
proof (cases pr)
  case (Pair res k)
  show ?thesis
  proof (cases res)
    case (Inl ex)
    with Pair assms show ?thesis by (auto simp: after_parse_def admits_def)
  next
    case (Inr rows)
    show ?thesis
    proof (cases "rows = []")
      case True
      with Pair Inr assms show ?thesis
        by (auto simp: after_parse_def do_log_def admits_def split: prod.splits option.splits)
    next
      case False
      obtain s1 n1 where a: "admit_rows rows (s\<lparr>tick := k\<rparr>) 0 = (s1, n1)"
        by (cases "admit_rows rows (s\<lparr>tick := k\<rparr>) 0") auto
      with Pair Inr False assms have r: "after_rows rows (s1, n1) = (e, s')"
        by (simp add: after_parse_def)
      from admit_rows_records [OF a]
      have "admits (s\<lparr>tick := k\<rparr>) s1 (admitted_records (seen_links s) rows)" by simp
      then have "admits s s1 (admitted_records (seen_links s) rows)" by (simp add: admits_def)
      with after_rows_admits [OF r] have "admits s s' (admitted_records (seen_links s) rows)"
        using admits_trans_nil by blast
      with Pair Inr show ?thesis by simp
    qed
  qed
qed

lemma crawl_page_records:
  assumes "crawl_page P W Q s = (e, s')"
  shows "admits s s' (admitted_records (seen_links s) (pass_rows P W Q s))"
proof (cases "max_pages Q < page_count s + 1")
  case True
  with assms show ?thesis
    by (auto simp: crawl_page_def do_log_def admits_def pass_rows_def)
next
  case False
  with assms have ar: "after_request P W (http_get W (tick s) (page_url W Q (start s)))
      (issue_request W Q s) = (e, s')"
    by (simp add: crawl_page_def)
  show ?thesis
  proof (cases "http_get W (tick s) (page_url W Q (start s))")
    case (RequestException m)
    with ar False show ?thesis
      by (auto simp: after_request_def do_log_def admits_def pass_rows_def issue_request_def)
  next
    case (Response status body)
    show ?thesis
    proof (cases "status = 200")
      case ne: False
      with Response ar False show ?thesis
        by (auto simp: after_request_def do_log_def admits_def pass_rows_def issue_request_def)
    next
      case True
      with Response ar have "after_parse W body (parse_page P W body (Suc (tick s)))
          (issue_request W Q s) = (e, s')"
        by (simp add: after_request_def issue_request_fields)
      from after_parse_records [OF this]
      have "admits (issue_request W Q s) s'
              (admitted_records (seen_links s)
                 (case fst (parse_page P W body (Suc (tick s))) of Inl x \<Rightarrow> [] | Inr rows \<Rightarrow> rows))"
        by (simp add: issue_request_fields)
      then have "admits s s'
              (admitted_records (seen_links s)
                 (case fst (parse_page P W body (Suc (tick s))) of Inl x \<Rightarrow> [] | Inr rows \<Rightarrow> rows))"
        by (simp add: admits_def issue_request_fields)
      with Response True False show ?thesis by (simp add: pass_rows_def)
    qed
  qed
qed

lemma admits_append:
  "admits s s1 a \<Longrightarrow> admits s1 s2 b \<Longrightarrow>
   titles s2 = titles s @ map Title (a @ b) \<and> dates s2 = dates s @ map Date (a @ b)
   \<and> sources s2 = sources s @ map Source (a @ b) \<and> links s2 = links s @ map Link (a @ b)
   \<and> seen_links s2 = seen_links s \<union> set (map Link (a @ b))"
  by (auto simp: admits_def)

lemma crawl_loop_records:
  "titles (snd (crawl_loop P W Q s)) = titles s @ map Title (run_records P W Q (seen_links s) s)
   \<and> dates (snd (crawl_loop P W Q s)) = dates s @ map Date (run_records P W Q (seen_links s) s)
   \<and> sources (snd (crawl_loop P W Q s)) = sources s @ map Source (run_records P W Q (seen_links s) s)
   \<and> links (snd (crawl_loop P W Q s)) = links s @ map Link (run_records P W Q (seen_links s) s)
   \<and> seen_links (snd (crawl_loop P W Q s))
       = seen_links s \<union> set (map Link (run_records P W Q (seen_links s) s))"
proof (induction P W Q s rule: crawl_loop.induct)
  case (1 P W Q s)
  let ?a = "admitted_records (seen_links s) (pass_rows P W Q s)"
  obtain e s' where cp: "crawl_page P W Q s = (e, s')" by (cases "crawl_page P W Q s") auto
  from crawl_page_records [OF cp] have a: "admits s s' ?a" .
  show ?case
  proof (cases "e = Continue")
    case True
    with cp have c: "crawl_page P W Q s = (Continue, s')" by simp
    have seen: "seen_links s' = seen_links s \<union> set (map Link ?a)"
      using a by (simp add: admits_def)
    have rr: "run_records P W Q (seen_links s) s = ?a @ run_records P W Q (seen_links s') s'"
      by (subst run_records.simps) (simp add: c seen)
    have l: "crawl_loop P W Q s = crawl_loop P W Q s'" using c by (rule crawl_loop_Continue)
    from "1.IH" [OF c [symmetric] refl] a show ?thesis
      unfolding l rr by (simp add: admits_def Un_assoc)
  next
    case False
    have rr: "run_records P W Q (seen_links s) s = ?a"
      using cp False by (subst run_records.simps) (cases e; simp)
    have "snd (crawl_loop P W Q s) = s'"
      using cp False by (cases e) (simp_all add: crawl_loop_Break crawl_loop_Raised)
    with a show ?thesis unfolding rr by (simp add: admits_def)
  qed
qed

section \<open>Facts about the extractor\<close>

lemma parse_box_no_title:
  "extract_title_from_card W box = [] \<Longrightarrow> parse_box P W box k = (Inr None, k)"
  by (simp add: parse_box_def)

lemma parse_box_no_link:
  "link_element W box = None \<or> (\<exists>a. link_element W box = Some a \<and> href_of W a = []) \<Longrightarrow>
   parse_box P W box k = (Inr None, k)"
  by (auto simp: parse_box_def)

lemma parse_box_None: "parse_box P W box k = (Inr None, k') \<Longrightarrow> k' = k"
  by (auto simp: parse_box_def split: if_splits option.splits prod.splits sum.splits)

lemma parse_box_Some:
  "parse_box P W box k = (Inr (Some r), k') \<Longrightarrow>
   Title r \<noteq> [] \<and> Link r \<noteq> []"
  by (auto simp: parse_box_def split: if_splits option.splits prod.splits sum.splits)

lemma parse_boxes_skip:
  "parse_box P W box k = (Inr None, k) \<Longrightarrow>
   parse_boxes P W (box # boxes) k = parse_boxes P W boxes k"
  by (simp split: prod.splits sum.splits)

lemma parse_boxes_rows:
  "parse_boxes P W boxes k = (Inr rows, k') \<Longrightarrow>
   (\<forall>r\<in>set rows. Title r \<noteq> [] \<and> Link r \<noteq> []) \<and> (rows = [] \<longrightarrow> k' = k)"
proof (induction boxes arbitrary: k rows k')
  case Nil
  then show ?case by simp
next
  case (Cons box boxes)
  from Cons.prems obtain ro k1 rest where
    b: "parse_box P W box k = (Inr ro, k1)" and
    bs: "parse_boxes P W boxes k1 = (Inr rest, k')" and
    rows: "rows = (case ro of None \<Rightarrow> rest | Some x \<Rightarrow> x # rest)"
    by (auto split: prod.splits sum.splits)
  note ih = Cons.IH [OF bs]
  show ?case
  proof (cases ro)
    case None
    with b have "k1 = k" using parse_box_None by simp
    with ih rows None show ?thesis by simp
  next
    case (Some x)
    with b have "parse_box P W box k = (Inr (Some x), k1)" by simp
    from parse_box_Some [OF this] have "Title x \<noteq> [] \<and> Link x \<noteq> []" .
    with ih rows Some show ?thesis by simp
  qed
qed

lemma parse_page_no_containers:
  "containers W (soup W html) = [] \<Longrightarrow> parse_page P W html k = (Inr [], k)"
  by (simp add: parse_page_def)

section \<open>A small world for the worked examples\<close>

text \<open>
  Three listing pages over nodes that are numbers. The page with the text \<^verbatim>\<open>A\<close> has one
  container (node 10) with a headline (node 11), a link around it (node 12) and a date
  element (node 13). The page \<^verbatim>\<open>B\<close> has two containers: node 20, which has a publisher
  (node 24) and a date (node 23) but nothing that bears a title, and node 10 again. Every
  other page has no container. The network is a parameter; every file can be written.
\<close>

definition example_select :: "pystr \<Rightarrow> nat \<Rightarrow> nat list" where
  "example_select sel n =
     (if sel = asc ''ul.list_news > li.bx''
      then (if n = 1 then [10] else if n = 2 then [20, 10] else [])
      else if sel = HEADLINE_SEL then (if n = 10 then [11] else [])
      else if sel = A_HAS_HEADLINE then (if n = 10 then [12] else [])
      else if sel = asc ''div.info_group > span.info''
      then (if n = 10 then [13] else if n = 20 then [23] else [])
      else if sel = PRESS_SEL then (if n = 20 then [24] else [])
      else [])"

definition example_text :: "nat \<Rightarrow> pystr" where
  "example_text n =
     (if n = 11 then asc ''Title''
      else if n = 13 \<or> n = 23 then asc ''2024.03.07''
      else if n = 24 then asc ''Press''
      else [])"

definition example_world :: "(nat \<Rightarrow> pystr \<Rightarrow> http_result) \<Rightarrow> nat world" where
  "example_world net =
     \<lparr>soup = (\<lambda>html. if html = asc ''A'' then 1 else if html = asc ''B'' then 2 else 0),
      select = example_select,
      find_all = (\<lambda>name n. []),
      find_a_news_tit = (\<lambda>n. None),
      find_press_class = (\<lambda>n. None),
      get_text = (\<lambda>sep n. example_text n),
      attr = (\<lambda>n name. if n = 12 \<and> name = asc ''href'' then Some (asc ''https://example.com/a'')
                          else None),
      quote_plus = (\<lambda>s. s),
      urlparse_netloc = (\<lambda>link. Some (asc ''example.com'')),
      fromisoformat_kst = (\<lambda>s. None),
      html_time_datetime = (\<lambda>s. None),
      html_published_time = (\<lambda>s. None),
      http_get = net,
      clock_at = (\<lambda>k. clock_example),
      file_open = (\<lambda>k name. True),
      file_store = (\<lambda>k name t. None)\<rparr>"

definition example_query :: query where
  "example_query =
     \<lparr>search_term = asc ''news'', start_date = asc ''2024.01.01'', end_date = asc ''2024.12.31'',
      sort_value = 2, max_pages = 5\<rparr>"

definition example_row :: row where
  "example_row =
     \<lparr>Title = asc ''Title'', Date = asc ''2024.03.07'', Source = asc ''example'',
      Link = asc ''https://example.com/a''\<rparr>"


lemmas example_eval =
  example_world_def example_select_def example_text_def select_one_def find_first_def
  HEADLINE_SEL_def A_HAS_HEADLINE_def PRESS_SEL_def asc_def

lemma example_title_10: "extract_title_from_card (example_world net) 10 = asc ''Title''"
  by (simp add: extract_title_from_card_def example_eval clean_text_def py_split_def is_space_def)

lemma example_title_20: "extract_title_from_card (example_world net) 20 = []"
  by (simp add: extract_title_from_card_def example_eval news_tit_link_def)

lemma example_link_10:
  "link_element (example_world net) 10 = Some 12"
  "href_of (example_world net) 12 = asc ''https://example.com/a''"
  by (simp_all add: link_element_def href_of_def example_eval py_strip_def py_lstrip_def
      py_rstrip_def is_space_def)

lemma example_source_10:
  "extract_source_from_card (example_world net) 10 (asc ''https://example.com/a'') = asc ''example''"
  by (simp add: extract_source_from_card_def source_from_press_link_def press_link_def
      source_from_class_def source_from_domain_def example_eval py_remove.simps)

lemma example_date_10:
  "resolve_date cpython311 (example_world net) 10 link k = (Inr (asc ''2024.03.07''), k)"
  by (simp add: resolve_date_def or_else_def example_eval clean_text_def py_split_def
      is_space_def date_pat_at_def take_digits_2 take_digits_1 digits_1_2_def is_digit_def
      digit_value_def)

lemma example_box_10: "parse_box cpython311 (example_world net) 10 k = (Inr (Some example_row), k)"
  by (simp add: parse_box_def example_title_10 example_link_10 example_source_10 example_date_10
      example_row_def) (simp add: asc_def)

lemma example_box_20: "parse_box cpython311 (example_world net) 20 k = (Inr None, k)"
  by (rule parse_box_no_title) (rule example_title_20)

lemma example_containers:
  "containers (example_world net) (soup (example_world net) (asc ''A'')) = [10]"
  "containers (example_world net) (soup (example_world net) (asc ''B'')) = [20, 10]"
  "containers (example_world net) (soup (example_world net) (asc ''Z'')) = []"
  by (simp_all add: containers_def example_eval)

lemma example_page_A: "parse_page cpython311 (example_world net) (asc ''A'') k = (Inr [example_row], k)"
  by (simp add: parse_page_def example_containers example_box_10)

lemma example_page_B: "parse_page cpython311 (example_world net) (asc ''B'') k = (Inr [example_row], k)"
  by (simp add: parse_page_def example_containers example_box_10 example_box_20)

lemma example_page_Z: "parse_page cpython311 (example_world net) (asc ''Z'') k = (Inr [], k)"
  by (simp add: parse_page_def example_containers)

lemma pass_status:
  assumes "page_count s + 1 \<le> max_pages Q"
    and "http_get W (tick s) (page_url W Q (start s)) = Response status body" "status \<noteq> 200"
  shows "crawl_page P W Q s = (Break, do_log (msg_status status (start s)) (issue_request W Q s))"
  using assms by (simp add: crawl_page_request after_request_def issue_request_fields)

lemma pass_exception:
  assumes "page_count s + 1 \<le> max_pages Q"
    and "http_get W (tick s) (page_url W Q (start s)) = RequestException m"
  shows "crawl_page P W Q s = (Break, do_log (msg_exception m) (issue_request W Q s))"
  using assms by (simp add: crawl_page_request after_request_def)

lemma pass_no_rows:
  assumes "page_count s + 1 \<le> max_pages Q"
    and "http_get W (tick s) (page_url W Q (start s)) = Response 200 body"
    and "parse_page P W body (Suc (tick s)) = (Inr [], k')"
  shows "crawl_page P W Q s
           = (case write_text W k' (asc ''debug_naver.html'') body (files s) of
                (Some e, fs) \<Rightarrow> (Raised e, (issue_request W Q s)\<lparr>tick := k', files := fs\<rparr>)
              | (None, fs) \<Rightarrow>
                  (Break, do_log (msg_no_rows (start s))
                     ((issue_request W Q s)\<lparr>tick := k', files := fs\<rparr>)))"
  using assms
  by (simp add: crawl_page_request after_request_def after_parse_def issue_request_fields
      split: prod.splits option.splits)

lemma write_text_stored:
  "file_open W k name \<Longrightarrow> utf8_encodable t \<Longrightarrow> file_store W k name t = None \<Longrightarrow>
   write_text W k name t fs = (None, fs(name \<mapsto> t))"
  by (simp add: write_text_def)

lemma write_text_None:
  "write_text W k name t fs = (None, fs') \<longleftrightarrow>
   file_open W k name \<and> utf8_encodable t \<and> file_store W k name t = None \<and> fs' = fs(name \<mapsto> t)"
  by (auto simp: write_text_def split: option.splits)

lemma write_text_unencodable:
  "file_open W k name \<Longrightarrow> \<not> utf8_encodable t \<Longrightarrow>
   write_text W k name t fs = (Some UnicodeEncodeError, fs(name \<mapsto> []))"
  by (simp add: write_text_def)

lemma write_text_frame:
  "write_text W k name t fs = (r, fs') \<Longrightarrow> n \<noteq> name \<Longrightarrow> fs' n = fs n"
  by (auto simp: write_text_def split: if_splits option.splits)

lemma pass_dups:
  assumes "page_count s + 1 \<le> max_pages Q"
    and "http_get W (tick s) (page_url W Q (start s)) = Response 200 body"
    and "parse_page P W body (Suc (tick s)) = (Inr rows, k')" "rows \<noteq> []"
    and "\<forall>r\<in>set rows. Link r = [] \<or> Link r \<in> seen_links s"
  shows "crawl_page P W Q s
           = (Break, do_log msg_nothing_new
                ((do_log (msg_page (start s) (length rows) 0) ((issue_request W Q s)\<lparr>tick := k'\<rparr>))
                   \<lparr>start := start s + 10, sleeps := Suc (sleeps s)\<rparr>))"
proof -
  have "\<forall>r\<in>set rows. Link r = [] \<or> Link r \<in> seen_links ((issue_request W Q s)\<lparr>tick := k'\<rparr>)"
    using assms(5) by (simp add: issue_request_fields)
  then have "admit_rows rows ((issue_request W Q s)\<lparr>tick := k'\<rparr>) 0
               = ((issue_request W Q s)\<lparr>tick := k'\<rparr>, 0)"
    by (rule admit_rows_dups)
  then show ?thesis
    using assms(1-4)
    by (simp add: crawl_page_request after_request_def after_parse_def after_rows_def
        issue_request_fields do_log_fields)
qed

lemma crawl_page_count: "page_count (snd (crawl_page P W Q s)) = page_count s + 1"
proof (cases "max_pages Q < page_count s + 1")
  case True
  then show ?thesis by (simp add: crawl_page_max do_log_fields)
next
  case False
  obtain e s' where a: "after_request P W (http_get W (tick s) (page_url W Q (start s)))
      (issue_request W Q s) = (e, s')"
    by (cases "after_request P W (http_get W (tick s) (page_url W Q (start s)))
      (issue_request W Q s)") auto
  from after_request_frame [OF a] a False show ?thesis
    by (simp add: crawl_page_def issue_request_fields)
qed

lemma crawl_page_requests:
  assumes "crawl_page P W Q s = (e, s')"
  shows "(max_pages Q < page_count s + 1 \<and> e = Break \<and> requests s' = requests s)
         \<or> (page_count s + 1 \<le> max_pages Q \<and> requests s' = requests s @ [page_url W Q (start s)])"
proof (cases "max_pages Q < page_count s + 1")
  case True
  with assms show ?thesis by (auto simp: crawl_page_max do_log_fields)
next
  case False
  with assms have a: "after_request P W (http_get W (tick s) (page_url W Q (start s)))
      (issue_request W Q s) = (e, s')"
    by (simp add: crawl_page_def)
  from after_request_frame [OF a] False show ?thesis
    by (simp add: issue_request_fields)
qed

lemma after_request_Continue_start:
  assumes "after_request P W r s = (Continue, s')"
  shows "start s' = start s + 10"
proof -
  from assms obtain body where r: "r = Response 200 body"
    and ap: "after_parse W body (parse_page P W body (tick s)) s = (Continue, s')"
    by (auto simp: after_request_def split: http_result.splits if_splits)
  obtain res k where pp: "parse_page P W body (tick s) = (res, k)"
    by (cases "parse_page P W body (tick s)") auto
  with ap obtain rows where res: "res = Inr rows" "rows \<noteq> []"
    and ar: "after_rows rows (admit_rows rows (s\<lparr>tick := k\<rparr>) 0) = (Continue, s')"
    by (auto simp: after_parse_def split: sum.splits if_splits prod.splits option.splits)
  obtain s1 n1 where a: "admit_rows rows (s\<lparr>tick := k\<rparr>) 0 = (s1, n1)"
    by (cases "admit_rows rows (s\<lparr>tick := k\<rparr>) 0") auto
  from after_rows_frame [of rows s1 n1 Continue s'] ar a admit_rows_frame [OF a]
  show ?thesis by simp
qed

lemma crawl_page_Continue_start:
  assumes "crawl_page P W Q s = (Continue, s')"
  shows "start s' = start s + 10 \<and> requests s' = requests s @ [page_url W Q (start s)]"
proof -
  from crawl_page_requests [OF assms] have le: "page_count s + 1 \<le> max_pages Q"
    and rq: "requests s' = requests s @ [page_url W Q (start s)]" by auto
  from assms le have "after_request P W (http_get W (tick s) (page_url W Q (start s)))
      (issue_request W Q s) = (Continue, s')"
    by (simp add: crawl_page_request)
  from after_request_Continue_start [OF this] rq show ?thesis
    by (simp add: issue_request_fields)
qed

lemma crawl_loop_end:
  "crawl_page P W Q s = (e, s') \<Longrightarrow> e \<noteq> Continue \<Longrightarrow> snd (crawl_loop P W Q s) = s'"
  by (cases e) (simp_all add: crawl_loop_Break crawl_loop_Raised)

lemma crawl_loop_request_bound:
  assumes "int (length (requests s)) = page_count s" "length (requests s) \<le> nat (max_pages Q)"
  shows "length (requests (snd (crawl_loop P W Q s))) \<le> nat (max_pages Q)
         \<and> int (length (requests (snd (crawl_loop P W Q s)))) \<le> page_count (snd (crawl_loop P W Q s))
         \<and> page_count (snd (crawl_loop P W Q s))
             \<le> int (length (requests (snd (crawl_loop P W Q s)))) + 1"
    (is "?F (crawl_loop P W Q s)")
proof (rule crawl_loop_rule
    [where H = "\<lambda>s. int (length (requests s)) = page_count s
                    \<and> length (requests s) \<le> nat (max_pages Q)"])
  show "int (length (requests s)) = page_count s \<and> length (requests s) \<le> nat (max_pages Q)"
    using assms by simp
next
  fix s s'
  assume h: "int (length (requests s)) = page_count s \<and> length (requests s) \<le> nat (max_pages Q)"
    and c: "crawl_page P W Q s = (Continue, s')"
  from crawl_page_requests [OF c] have le: "page_count s + 1 \<le> max_pages Q"
    and rq: "requests s' = requests s @ [page_url W Q (start s)]" by auto
  from crawl_page_count [of P W Q s] c have pc: "page_count s' = page_count s + 1" by simp
  show "int (length (requests s')) = page_count s' \<and> length (requests s') \<le> nat (max_pages Q)"
    using h le rq pc by auto
next
  fix s e s'
  assume h: "int (length (requests s)) = page_count s \<and> length (requests s) \<le> nat (max_pages Q)"
    and c: "crawl_page P W Q s = (e, s')" and e: "e \<noteq> Continue"
  from crawl_page_count [of P W Q s] c have pc: "page_count s' = page_count s + 1" by simp
  have s': "snd (crawl_loop P W Q s) = s'" using c e by (rule crawl_loop_end)
  from crawl_page_requests [OF c] show "?F (crawl_loop P W Q s)"
    unfolding s' using h pc by auto
qed

lemma crawl_loop_offsets:
  assumes "requests s = map (\<lambda>i. page_url W Q (1 + 10 * int i)) [0..<length (requests s)]"
    and "start s = 1 + 10 * int (length (requests s))"
  shows "requests (snd (crawl_loop P W Q s))
           = map (\<lambda>i. page_url W Q (1 + 10 * int i)) [0..<length (requests (snd (crawl_loop P W Q s)))]"
    (is "?F (crawl_loop P W Q s)")
proof (rule crawl_loop_rule
    [where H = "\<lambda>s. requests s = map (\<lambda>i. page_url W Q (1 + 10 * int i)) [0..<length (requests s)]
                    \<and> start s = 1 + 10 * int (length (requests s))"])
  show "requests s = map (\<lambda>i. page_url W Q (1 + 10 * int i)) [0..<length (requests s)]
          \<and> start s = 1 + 10 * int (length (requests s))"
    using assms by simp
next
  fix s s'
  assume h: "requests s = map (\<lambda>i. page_url W Q (1 + 10 * int i)) [0..<length (requests s)]
          \<and> start s = 1 + 10 * int (length (requests s))"
    and c: "crawl_page P W Q s = (Continue, s')"
  from crawl_page_Continue_start [OF c] have st: "start s' = start s + 10"
    and rq: "requests s' = requests s @ [page_url W Q (start s)]" by auto
  have "requests s' = map (\<lambda>i. page_url W Q (1 + 10 * int i)) [0..<length (requests s')]"
    using h by (simp add: rq)
  moreover have "start s' = 1 + 10 * int (length (requests s'))"
    using h st rq by simp
  ultimately show "requests s' = map (\<lambda>i. page_url W Q (1 + 10 * int i)) [0..<length (requests s')]
          \<and> start s' = 1 + 10 * int (length (requests s'))" by simp
next
  fix s e s'
  assume h: "requests s = map (\<lambda>i. page_url W Q (1 + 10 * int i)) [0..<length (requests s)]
          \<and> start s = 1 + 10 * int (length (requests s))"
    and c: "crawl_page P W Q s = (e, s')" and e: "e \<noteq> Continue"
  have s': "snd (crawl_loop P W Q s) = s'" using c e by (rule crawl_loop_end)
  from crawl_page_requests [OF c]
  have "requests s' = requests s \<or> requests s' = requests s @ [page_url W Q (start s)]" by auto
  then have "requests s' = map (\<lambda>i. page_url W Q (1 + 10 * int i)) [0..<length (requests s')]"
  proof
    assume "requests s' = requests s"
    with h show ?thesis by simp
  next
    assume rq: "requests s' = requests s @ [page_url W Q (start s)]"
    with h show ?thesis by (simp add: rq)
  qed
  then show "?F (crawl_loop P W Q s)" unfolding s' .
qed

definition net_pages :: "pystr list \<Rightarrow> nat \<Rightarrow> pystr \<Rightarrow> http_result" where
  "net_pages pages k url = (if k < length pages then Response 200 (pages ! k) else Response 503 [])"

lemma asc_eq_Nil: "asc s = [] \<longleftrightarrow> s = []"
  by (simp add: asc_def)

lemma example_http: "http_get (example_world net) = net"
  by (simp add: example_world_def)

lemma net_pages_simps:
  "net_pages (p # ps) 0 url = Response 200 p"
  "net_pages (p # ps) (Suc k) url = net_pages ps k url"
  "net_pages [] k url = Response 503 []"
  by (simp_all add: net_pages_def)

lemmas crawl_eval =
  crawl_def crawl_loop.simps crawl_page_def after_request_def after_parse_def after_rows_def
  issue_request_def do_log_def initial_state_def example_http net_pages_simps asc_eq_Nil

lemma example_crawl_AA:
  "fst (crawl cpython311 (example_world (net_pages [asc ''A'', asc ''A''])) example_query Map.empty 0)
     = Inr ([asc ''Title''], [asc ''2024.03.07''], [asc ''example''], [asc ''https://example.com/a''])"
  by (simp add: crawl_eval example_page_A example_row_def example_query_def)

lemma example_crawl_AA_requests:
  "requests (snd (crawl cpython311 (example_world (net_pages [asc ''A'', asc ''A''])) example_query
       Map.empty 0))
     = [page_url (example_world (net_pages [asc ''A'', asc ''A''])) example_query 1,
        page_url (example_world (net_pages [asc ''A'', asc ''A''])) example_query 11]"
  by (simp add: crawl_eval example_page_A example_row_def example_query_def)

lemma example_pass_rows:
  "pass_rows cpython311 (example_world (net_pages (asc ''A'' # ps))) example_query
     (initial_state Map.empty 0) = [example_row]"
  by (simp add: pass_rows_def initial_state_def example_query_def example_http net_pages_simps
      example_page_A)

lemma example_records_AA:
  "crawl_records cpython311 (example_world (net_pages [asc ''A'', asc ''A''])) example_query Map.empty 0
     = [example_row]"
  by (simp add: crawl_records_def run_records.simps pass_rows_def crawl_eval example_page_A
      example_row_def example_query_def)

section \<open>Claims about the accumulator\<close>

text \<open>
  C10. The four lists that \<^verbatim>\<open>crawl\<close> builds are the titles, dates, sources and links of
  the records that the run admits, in the order of admission: at the end of every run,
  and in the tuple that \<^verbatim>\<open>crawl\<close> returns, they have the same length, and index \<open>i\<close> of
  each is the field of the \<open>i\<close>-th admitted record. The loop over the rows of one page
  appends one element to each list for each record it admits, in order, and counts it;
  so does every pass, for the records of its page.
\<close>

theorem crawl_parallel_lists:
  "titles (snd (crawl P W Q fs k)) = map Title (crawl_records P W Q fs k)
   \<and> dates (snd (crawl P W Q fs k)) = map Date (crawl_records P W Q fs k)
   \<and> sources (snd (crawl P W Q fs k)) = map Source (crawl_records P W Q fs k)
   \<and> links (snd (crawl P W Q fs k)) = map Link (crawl_records P W Q fs k)
   \<and> (fst (crawl P W Q fs k) = Inr (t, d, so, l) \<longrightarrow>
        t = map Title (crawl_records P W Q fs k) \<and> d = map Date (crawl_records P W Q fs k)
        \<and> so = map Source (crawl_records P W Q fs k) \<and> l = map Link (crawl_records P W Q fs k)
        \<and> length t = length (crawl_records P W Q fs k)
        \<and> length d = length (crawl_records P W Q fs k)
        \<and> length so = length (crawl_records P W Q fs k)
        \<and> length l = length (crawl_records P W Q fs k)
        \<and> (\<forall>i<length (crawl_records P W Q fs k).
              t ! i = Title (crawl_records P W Q fs k ! i)
              \<and> d ! i = Date (crawl_records P W Q fs k ! i)
              \<and> so ! i = Source (crawl_records P W Q fs k ! i)
              \<and> l ! i = Link (crawl_records P W Q fs k ! i)))
   \<and> (admit_rows rows s n = (s2, n2) \<longrightarrow>
        titles s2 = titles s @ map Title (admitted_records (seen_links s) rows)
        \<and> dates s2 = dates s @ map Date (admitted_records (seen_links s) rows)
        \<and> sources s2 = sources s @ map Source (admitted_records (seen_links s) rows)
        \<and> links s2 = links s @ map Link (admitted_records (seen_links s) rows)
        \<and> seen_links s2 = seen_links s \<union> set (map Link (admitted_records (seen_links s) rows))
        \<and> n2 = n + length (admitted_records (seen_links s) rows))
   \<and> (crawl_page P W Q s = (e, s') \<longrightarrow>
        titles s' = titles s @ map Title (admitted_records (seen_links s) (pass_rows P W Q s))
        \<and> dates s' = dates s @ map Date (admitted_records (seen_links s) (pass_rows P W Q s))
        \<and> sources s' = sources s @ map Source (admitted_records (seen_links s) (pass_rows P W Q s))
        \<and> links s' = links s @ map Link (admitted_records (seen_links s) (pass_rows P W Q s)))"
proof -
  let ?R = "crawl_records P W Q fs k"
  have run: "titles (snd (crawl P W Q fs k)) = map Title ?R
      \<and> dates (snd (crawl P W Q fs k)) = map Date ?R
      \<and> sources (snd (crawl P W Q fs k)) = map Source ?R
      \<and> links (snd (crawl P W Q fs k)) = map Link ?R"
    using crawl_loop_records [of P W Q "initial_state fs k"]
    by (simp add: crawl_def crawl_records_def initial_state_def)
  have ret: "fst (crawl P W Q fs k) = Inr (t, d, so, l) \<longrightarrow>
        t = map Title ?R \<and> d = map Date ?R \<and> so = map Source ?R \<and> l = map Link ?R
        \<and> length t = length ?R \<and> length d = length ?R \<and> length so = length ?R
        \<and> length l = length ?R
        \<and> (\<forall>i<length ?R.
              t ! i = Title (?R ! i) \<and> d ! i = Date (?R ! i) \<and> so ! i = Source (?R ! i)
              \<and> l ! i = Link (?R ! i))"
  proof
    assume "fst (crawl P W Q fs k) = Inr (t, d, so, l)"
    then have eq: "t = map Title ?R" "d = map Date ?R" "so = map Source ?R" "l = map Link ?R"
      using crawl_loop_result [of P W Q "initial_state fs k" t d so l] run
      by (simp_all add: crawl_def)
    show "t = map Title ?R \<and> d = map Date ?R \<and> so = map Source ?R \<and> l = map Link ?R
        \<and> length t = length ?R \<and> length d = length ?R \<and> length so = length ?R
        \<and> length l = length ?R
        \<and> (\<forall>i<length ?R.
              t ! i = Title (?R ! i) \<and> d ! i = Date (?R ! i) \<and> so ! i = Source (?R ! i)
              \<and> l ! i = Link (?R ! i))"
      unfolding eq by simp
  qed
  have page: "admit_rows rows s n = (s2, n2) \<longrightarrow>
        titles s2 = titles s @ map Title (admitted_records (seen_links s) rows)
        \<and> dates s2 = dates s @ map Date (admitted_records (seen_links s) rows)
        \<and> sources s2 = sources s @ map Source (admitted_records (seen_links s) rows)
        \<and> links s2 = links s @ map Link (admitted_records (seen_links s) rows)
        \<and> seen_links s2 = seen_links s \<union> set (map Link (admitted_records (seen_links s) rows))
        \<and> n2 = n + length (admitted_records (seen_links s) rows)"
    using admit_rows_records [of rows s n s2 n2] by (simp add: admits_def)
  have pass: "crawl_page P W Q s = (e, s') \<longrightarrow>
        titles s' = titles s @ map Title (admitted_records (seen_links s) (pass_rows P W Q s))
        \<and> dates s' = dates s @ map Date (admitted_records (seen_links s) (pass_rows P W Q s))
        \<and> sources s' = sources s @ map Source (admitted_records (seen_links s) (pass_rows P W Q s))
        \<and> links s' = links s @ map Link (admitted_records (seen_links s) (pass_rows P W Q s))"
    using crawl_page_records [of P W Q s e s'] by (simp add: admits_def)
  from run ret page pass show ?thesis by blast
qed

text \<open>
  Two pages that both hold the one row of the example: the run admits that row once, from
  the first page, and returns its four fields at index 0; the first pass appends them. A
  page that held the row twice would have it admitted once as well.
\<close>

theorem crawl_parallel_lists_witness:
  "crawl_records cpython311 (example_world (net_pages [asc ''A'', asc ''A''])) example_query Map.empty 0
     = [example_row]
   \<and> fst (crawl cpython311 (example_world (net_pages [asc ''A'', asc ''A''])) example_query Map.empty 0)
     = Inr (map Title [example_row], map Date [example_row], map Source [example_row],
            map Link [example_row])
   \<and> titles (fst (admit_rows [example_row, example_row] (initial_state Map.empty 0) 0))
       = [Title example_row]
   \<and> links (fst (admit_rows [example_row, example_row] (initial_state Map.empty 0) 0))
       = [Link example_row]
   \<and> snd (admit_rows [example_row, example_row] (initial_state Map.empty 0) 0) = 1
   \<and> titles (snd (crawl_page cpython311 (example_world (net_pages [asc ''A'', asc ''A'']))
         example_query (initial_state Map.empty 0))) = [Title example_row]
   \<and> links (snd (crawl_page cpython311 (example_world (net_pages [asc ''A'', asc ''A'']))
         example_query (initial_state Map.empty 0))) = [Link example_row]"
proof -
  let ?W = "example_world (net_pages [asc ''A'', asc ''A''])"
  let ?s = "initial_state Map.empty 0"
  have cp: "crawl_page cpython311 ?W example_query ?s
     = (fst (crawl_page cpython311 ?W example_query ?s),
        snd (crawl_page cpython311 ?W example_query ?s))" by simp
  have r: "fst (crawl cpython311 ?W example_query Map.empty 0)
     = Inr ([asc ''Title''], [asc ''2024.03.07''], [asc ''example''], [asc ''https://example.com/a''])"
    by (rule example_crawl_AA)
  have a: "admit_rows [example_row, example_row] ?s 0
     = (fst (admit_rows [example_row, example_row] ?s 0),
        snd (admit_rows [example_row, example_row] ?s 0))"
    by simp
  note T = crawl_parallel_lists [of cpython311 ?W example_query Map.empty 0
      "[asc ''Title'']" "[asc ''2024.03.07'']" "[asc ''example'']" "[asc ''https://example.com/a'']"
      "[example_row, example_row]" ?s 0
      "fst (admit_rows [example_row, example_row] ?s 0)"
      "snd (admit_rows [example_row, example_row] ?s 0)"
      "fst (crawl_page cpython311 ?W example_query ?s)"
      "snd (crawl_page cpython311 ?W example_query ?s)"]
  have ret: "[asc ''Title''] = map Title (crawl_records cpython311 ?W example_query Map.empty 0)
      \<and> [asc ''2024.03.07''] = map Date (crawl_records cpython311 ?W example_query Map.empty 0)
      \<and> [asc ''example''] = map Source (crawl_records cpython311 ?W example_query Map.empty 0)
      \<and> [asc ''https://example.com/a'']
          = map Link (crawl_records cpython311 ?W example_query Map.empty 0)"
    using T [THEN conjunct2, THEN conjunct2, THEN conjunct2, THEN conjunct2, THEN conjunct1,
        THEN mp, OF r] by simp
  then obtain x where x: "crawl_records cpython311 ?W example_query Map.empty 0 = [x]"
    by (cases "crawl_records cpython311 ?W example_query Map.empty 0") auto
  with ret have "x = example_row" by (simp add: example_row_def)
  with x have R: "crawl_records cpython311 ?W example_query Map.empty 0 = [example_row]" by simp
  have adm: "admitted_records {} [example_row, example_row] = [example_row]"
    by (simp add: example_row_def asc_def)
  have page: "titles (fst (admit_rows [example_row, example_row] ?s 0))
                = titles ?s @ map Title (admitted_records (seen_links ?s) [example_row, example_row])
      \<and> links (fst (admit_rows [example_row, example_row] ?s 0))
                = links ?s @ map Link (admitted_records (seen_links ?s) [example_row, example_row])
      \<and> snd (admit_rows [example_row, example_row] ?s 0)
                = 0 + length (admitted_records (seen_links ?s) [example_row, example_row])"
    using T [THEN conjunct2, THEN conjunct2, THEN conjunct2, THEN conjunct2, THEN conjunct2,
        THEN conjunct1, THEN mp, OF a] by simp
  have s0: "seen_links ?s = {}" "titles ?s = []" "links ?s = []"
    by (simp_all add: initial_state_def)
  have adm1: "admitted_records {} [example_row] = [example_row]"
    by (simp add: example_row_def asc_def)
  have "titles (snd (crawl_page cpython311 ?W example_query ?s))
          = titles ?s @ map Title (admitted_records (seen_links ?s)
                                     (pass_rows cpython311 ?W example_query ?s))
      \<and> links (snd (crawl_page cpython311 ?W example_query ?s))
          = links ?s @ map Link (admitted_records (seen_links ?s)
                                   (pass_rows cpython311 ?W example_query ?s))"
    using T [THEN conjunct2, THEN conjunct2, THEN conjunct2, THEN conjunct2, THEN conjunct2,
        THEN conjunct2, THEN mp, OF cp] by simp
  then have pass: "titles (snd (crawl_page cpython311 ?W example_query ?s)) = [Title example_row]
      \<and> links (snd (crawl_page cpython311 ?W example_query ?s)) = [Link example_row]"
    unfolding example_pass_rows s0 adm1 by simp
  from page have "titles (fst (admit_rows [example_row, example_row] ?s 0)) = [Title example_row]
      \<and> links (fst (admit_rows [example_row, example_row] ?s 0)) = [Link example_row]
      \<and> snd (admit_rows [example_row, example_row] ?s 0) = 1"
    unfolding s0 adm by simp
  moreover have "fst (crawl cpython311 ?W example_query Map.empty 0)
     = Inr (map Title [example_row], map Date [example_row], map Source [example_row],
            map Link [example_row])"
    using r by (simp add: example_row_def)
  ultimately show ?thesis using R pass by simp
qed

text \<open>
  C1. In every run of \<^verbatim>\<open>crawl\<close> the links of the accumulated rows are different from
  each other, and they are exactly the seen links; so is the list of links that
  \<^verbatim>\<open>crawl\<close> returns. A page that is fetched with status 200 and yields rows, all of
  whose links are empty or already seen, ends the run: \<^verbatim>\<open>crawl\<close> returns the lists as
  they were before that page, after this one request.
\<close>

theorem crawl_links_distinct:
  "distinct (links (snd (crawl P W Q fs k)))
   \<and> seen_links (snd (crawl P W Q fs k)) = set (links (snd (crawl P W Q fs k)))
   \<and> (fst (crawl P W Q fs k) = Inr (t, d, so, l) \<longrightarrow> distinct l)
   \<and> (page_count s + 1 \<le> max_pages Q
        \<and> http_get W (tick s) (page_url W Q (start s)) = Response 200 body
        \<and> parse_page P W body (Suc (tick s)) = (Inr rows, k') \<and> rows \<noteq> []
        \<and> (\<forall>r\<in>set rows. Link r = [] \<or> Link r \<in> seen_links s)
      \<longrightarrow> fst (crawl_loop P W Q s) = Inr (titles s, dates s, sources s, links s)
          \<and> links (snd (crawl_loop P W Q s)) = links s
          \<and> requests (snd (crawl_loop P W Q s)) = requests s @ [page_url W Q (start s)]
          \<and> last (log_lines (snd (crawl_loop P W Q s))) = msg_nothing_new)"
proof -
  have acc: "accumulated (snd (crawl P W Q fs k))"
    unfolding crawl_def by (rule accumulated_crawl_loop) (rule accumulated_initial)
  then have 1: "distinct (links (snd (crawl P W Q fs k)))"
    and 2: "seen_links (snd (crawl P W Q fs k)) = set (links (snd (crawl P W Q fs k)))"
    by (auto simp: accumulated_def)
  have 3: "fst (crawl P W Q fs k) = Inr (t, d, so, l) \<longrightarrow> distinct l"
    using crawl_loop_result [of P W Q "initial_state fs k" t d so l] 1
    by (auto simp: crawl_def)
  have 4: "page_count s + 1 \<le> max_pages Q
        \<and> http_get W (tick s) (page_url W Q (start s)) = Response 200 body
        \<and> parse_page P W body (Suc (tick s)) = (Inr rows, k') \<and> rows \<noteq> []
        \<and> (\<forall>r\<in>set rows. Link r = [] \<or> Link r \<in> seen_links s)
      \<longrightarrow> fst (crawl_loop P W Q s) = Inr (titles s, dates s, sources s, links s)
          \<and> links (snd (crawl_loop P W Q s)) = links s
          \<and> requests (snd (crawl_loop P W Q s)) = requests s @ [page_url W Q (start s)]
          \<and> last (log_lines (snd (crawl_loop P W Q s))) = msg_nothing_new"
  proof
    assume h: "page_count s + 1 \<le> max_pages Q
        \<and> http_get W (tick s) (page_url W Q (start s)) = Response 200 body
        \<and> parse_page P W body (Suc (tick s)) = (Inr rows, k') \<and> rows \<noteq> []
        \<and> (\<forall>r\<in>set rows. Link r = [] \<or> Link r \<in> seen_links s)"
    then have "crawl_page P W Q s
           = (Break, do_log msg_nothing_new
                ((do_log (msg_page (start s) (length rows) 0) ((issue_request W Q s)\<lparr>tick := k'\<rparr>))
                   \<lparr>start := start s + 10, sleeps := Suc (sleeps s)\<rparr>))"
      using pass_dups [of s Q W body P rows k'] by blast
    from crawl_loop_Break [OF this]
    show "fst (crawl_loop P W Q s) = Inr (titles s, dates s, sources s, links s)
          \<and> links (snd (crawl_loop P W Q s)) = links s
          \<and> requests (snd (crawl_loop P W Q s)) = requests s @ [page_url W Q (start s)]
          \<and> last (log_lines (snd (crawl_loop P W Q s))) = msg_nothing_new"
      by (simp add: do_log_fields issue_request_fields)
  qed
  from 1 2 3 4 show ?thesis by blast
qed

text \<open>
  The same link on two consecutive pages: it is returned once, and the second page, all
  of it repeats, ends the run after two requests.
\<close>

theorem crawl_links_distinct_witness:
  "distinct [asc ''https://example.com/a'']
   \<and> fst (crawl_loop cpython311 (example_world (net_pages [asc ''A'']))
            example_query ((initial_state Map.empty 0)\<lparr>seen_links := {asc ''https://example.com/a''}\<rparr>))
        = Inr ([], [], [], [])
   \<and> requests (snd (crawl_loop cpython311 (example_world (net_pages [asc ''A'']))
            example_query ((initial_state Map.empty 0)\<lparr>seen_links := {asc ''https://example.com/a''}\<rparr>)))
        = [page_url (example_world (net_pages [asc ''A''])) example_query 1]"
proof -
  let ?W = "example_world (net_pages [asc ''A'', asc ''A''])"
  let ?V = "example_world (net_pages [asc ''A''])"
  let ?s = "(initial_state Map.empty 0)\<lparr>seen_links := {asc ''https://example.com/a''}\<rparr>"
  have r: "fst (crawl cpython311 ?W example_query Map.empty 0)
     = Inr ([asc ''Title''], [asc ''2024.03.07''], [asc ''example''], [asc ''https://example.com/a''])"
    by (rule example_crawl_AA)
  have h: "page_count ?s + 1 \<le> max_pages example_query
        \<and> http_get ?V (tick ?s) (page_url ?V example_query (start ?s)) = Response 200 (asc ''A'')
        \<and> parse_page cpython311 ?V (asc ''A'') (Suc (tick ?s)) = (Inr [example_row], Suc 0)
        \<and> [example_row] \<noteq> []
        \<and> (\<forall>r\<in>set [example_row]. Link r = [] \<or> Link r \<in> seen_links ?s)"
    by (simp add: initial_state_def example_query_def example_http net_pages_simps example_page_A
        example_row_def)
  have d: "distinct [asc ''https://example.com/a'']"
    using crawl_links_distinct [of cpython311 ?W example_query Map.empty 0
        "[asc ''Title'']" "[asc ''2024.03.07'']" "[asc ''example'']" "[asc ''https://example.com/a'']"] r
    by blast
  have "fst (crawl_loop cpython311 ?V example_query ?s)
          = Inr (titles ?s, dates ?s, sources ?s, links ?s)
        \<and> requests (snd (crawl_loop cpython311 ?V example_query ?s))
          = requests ?s @ [page_url ?V example_query (start ?s)]"
    using crawl_links_distinct [of cpython311 ?V example_query Map.empty 0 _ _ _ _ ?s
        "asc ''A''" "[example_row]" "Suc 0"] h
    by blast
  then show ?thesis using d by (simp add: initial_state_def)
qed

section \<open>Claims about the pagination driver\<close>

text \<open>
  C4. \<^verbatim>\<open>crawl\<close> is a total function: the loop ends on every input. A run issues at most
  \<open>max_pages\<close> listing requests. The page counter is raised by one in every pass, before
  anything else, and it is the number of requests or one more (the pass that only found
  the bound exceeded). A pass that finds the counter above \<open>max_pages\<close> ends the run
  without a request; any other pass issues its request: the bound is looked at only at
  the head of a pass.
\<close>

theorem crawl_request_bound:
  "length (requests (snd (crawl P W Q fs k))) \<le> nat (max_pages Q)
   \<and> int (length (requests (snd (crawl P W Q fs k)))) \<le> page_count (snd (crawl P W Q fs k))
   \<and> page_count (snd (crawl P W Q fs k)) \<le> int (length (requests (snd (crawl P W Q fs k)))) + 1
   \<and> page_count (snd (crawl_page P W Q s)) = page_count s + 1
   \<and> (max_pages Q < page_count s + 1 \<longrightarrow>
        fst (crawl_loop P W Q s) = Inr (titles s, dates s, sources s, links s)
        \<and> requests (snd (crawl_loop P W Q s)) = requests s
        \<and> log_lines (snd (crawl_loop P W Q s)) = log_lines s @ [msg_max_pages (max_pages Q)])
   \<and> (page_count s + 1 \<le> max_pages Q \<longrightarrow>
        requests (snd (crawl_page P W Q s)) = requests s @ [page_url W Q (start s)])"
proof -
  have 1: "length (requests (snd (crawl P W Q fs k))) \<le> nat (max_pages Q)
   \<and> int (length (requests (snd (crawl P W Q fs k)))) \<le> page_count (snd (crawl P W Q fs k))
   \<and> page_count (snd (crawl P W Q fs k)) \<le> int (length (requests (snd (crawl P W Q fs k)))) + 1"
    unfolding crawl_def
    by (rule crawl_loop_request_bound) (simp_all add: initial_state_def)
  have 2: "page_count (snd (crawl_page P W Q s)) = page_count s + 1"
    by (rule crawl_page_count)
  have 3: "max_pages Q < page_count s + 1 \<longrightarrow>
        fst (crawl_loop P W Q s) = Inr (titles s, dates s, sources s, links s)
        \<and> requests (snd (crawl_loop P W Q s)) = requests s
        \<and> log_lines (snd (crawl_loop P W Q s)) = log_lines s @ [msg_max_pages (max_pages Q)]"
  proof
    assume "max_pages Q < page_count s + 1"
    then have "crawl_page P W Q s
      = (Break, do_log (msg_max_pages (max_pages Q)) (s\<lparr>page_count := page_count s + 1\<rparr>))"
      by (rule crawl_page_max)
    from crawl_loop_Break [OF this]
    show "fst (crawl_loop P W Q s) = Inr (titles s, dates s, sources s, links s)
        \<and> requests (snd (crawl_loop P W Q s)) = requests s
        \<and> log_lines (snd (crawl_loop P W Q s)) = log_lines s @ [msg_max_pages (max_pages Q)]"
      by (simp add: do_log_fields)
  qed
  have 4: "page_count s + 1 \<le> max_pages Q \<longrightarrow>
        requests (snd (crawl_page P W Q s)) = requests s @ [page_url W Q (start s)]"
  proof
    assume le: "page_count s + 1 \<le> max_pages Q"
    obtain e s' where c: "crawl_page P W Q s = (e, s')" by (cases "crawl_page P W Q s") auto
    from crawl_page_requests [OF c] le c
    show "requests (snd (crawl_page P W Q s)) = requests s @ [page_url W Q (start s)]" by auto
  qed
  from 1 2 3 4 show ?thesis by blast
qed

text \<open>
  With \<open>max_pages = 5\<close>: a state whose counter is already 5 makes no request, and the
  first pass of a run makes one.
\<close>

theorem crawl_request_bound_witness:
  "requests (snd (crawl_loop cpython311 (example_world (net_pages [asc ''A'']))
       example_query ((initial_state Map.empty 0)\<lparr>page_count := 5\<rparr>))) = []
   \<and> requests (snd (crawl_page cpython311 (example_world (net_pages [asc ''A'']))
       example_query (initial_state Map.empty 0)))
     = [page_url (example_world (net_pages [asc ''A''])) example_query 1]"
proof -
  let ?V = "example_world (net_pages [asc ''A''])"
  let ?s = "(initial_state Map.empty 0)\<lparr>page_count := 5\<rparr>"
  have h1: "max_pages example_query < page_count ?s + 1"
    by (simp add: example_query_def)
  have h2: "page_count (initial_state Map.empty 0) + 1 \<le> max_pages example_query"
    by (simp add: example_query_def initial_state_def)
  note T1 = crawl_request_bound [of cpython311 ?V example_query Map.empty 0 ?s]
  note T2 = crawl_request_bound [of cpython311 ?V example_query Map.empty 0 "initial_state Map.empty 0"]
  have "requests (snd (crawl_loop cpython311 ?V example_query ?s)) = requests ?s"
    using T1 h1 by blast
  moreover have "requests (snd (crawl_page cpython311 ?V example_query (initial_state Map.empty 0)))
      = requests (initial_state Map.empty 0)
          @ [page_url ?V example_query (start (initial_state Map.empty 0))]"
    using T2 h2 by blast
  ultimately show ?thesis by (simp add: initial_state_def)
qed

text \<open>
  C5. The offset starts at 1, and the listing requests of a run are, in order, the URLs of
  the offsets 1, 11, 21, ...: request number \<open>i\<close> (from 0) has \<^verbatim>\<open>start = 1 + 10 i\<close>. Every
  pass that goes on to a next pass has made its request with the current offset and has
  raised the offset by exactly 10, whatever its page yielded.
\<close>

theorem crawl_offsets:
  "start (initial_state fs k) = 1
   \<and> requests (snd (crawl P W Q fs k))
       = map (\<lambda>i. page_url W Q (1 + 10 * int i)) [0..<length (requests (snd (crawl P W Q fs k)))]
   \<and> page_url W Q n
       = build_url (quote_plus W (search_term Q)) (sort_value Q) (start_date Q) (end_date Q)
           (nso_period_of Q) n
   \<and> (crawl_page P W Q s = (Continue, s') \<longrightarrow>
        start s' = start s + 10 \<and> requests s' = requests s @ [page_url W Q (start s)])"
proof -
  have 1: "requests (snd (crawl P W Q fs k))
       = map (\<lambda>i. page_url W Q (1 + 10 * int i)) [0..<length (requests (snd (crawl P W Q fs k)))]"
    unfolding crawl_def
    by (rule crawl_loop_offsets) (simp_all add: initial_state_def)
  have 2: "crawl_page P W Q s = (Continue, s') \<longrightarrow>
        start s' = start s + 10 \<and> requests s' = requests s @ [page_url W Q (start s)]"
    using crawl_page_Continue_start by blast
  from 1 2 show ?thesis by (simp add: initial_state_def page_url_def)
qed

text \<open>The first pass of the example: from offset 1 to offset 11, after one request.\<close>

theorem crawl_offsets_witness:
  "start (snd (crawl_page cpython311 (example_world (net_pages [asc ''A'']))
       example_query (initial_state Map.empty 0))) = 11
   \<and> requests (snd (crawl_page cpython311 (example_world (net_pages [asc ''A'']))
       example_query (initial_state Map.empty 0)))
      = [page_url (example_world (net_pages [asc ''A''])) example_query 1]"
proof -
  let ?V = "example_world (net_pages [asc ''A''])"
  let ?s = "initial_state Map.empty 0"
  have "fst (crawl_page cpython311 ?V example_query ?s) = Continue"
    by (simp add: crawl_eval example_page_A example_row_def example_query_def)
  then have c: "crawl_page cpython311 ?V example_query ?s
                  = (Continue, snd (crawl_page cpython311 ?V example_query ?s))"
    by (simp add: prod_eq_iff)
  from crawl_offsets [of Map.empty 0 cpython311 ?V example_query 0 ?s
      "snd (crawl_page cpython311 ?V example_query ?s)"] c
  have "start (snd (crawl_page cpython311 ?V example_query ?s)) = start ?s + 10
        \<and> requests (snd (crawl_page cpython311 ?V example_query ?s))
            = requests ?s @ [page_url ?V example_query (start ?s)]"
    by blast
  then show ?thesis by (simp add: initial_state_def)
qed

text \<open>
  C6. When the listing request of a pass returns a status other than 200, or raises a
  \<^verbatim>\<open>RequestException\<close>, the run ends there: \<^verbatim>\<open>crawl\<close> returns (it does not raise) the
  four lists exactly as they were before that pass, and the pass has only counted itself,
  made its request and given two messages to \<^verbatim>\<open>log\<close>: the request and the failure.
\<close>

theorem crawl_request_failure:
  "(page_count s + 1 \<le> max_pages Q
      \<and> http_get W (tick s) (page_url W Q (start s)) = Response status body \<and> status \<noteq> 200
    \<longrightarrow> crawl_loop P W Q s
          = (Inr (titles s, dates s, sources s, links s),
             do_log (msg_status status (start s)) (issue_request W Q s))
        \<and> titles (snd (crawl_loop P W Q s)) = titles s \<and> dates (snd (crawl_loop P W Q s)) = dates s
        \<and> sources (snd (crawl_loop P W Q s)) = sources s \<and> links (snd (crawl_loop P W Q s)) = links s
        \<and> log_lines (snd (crawl_loop P W Q s))
            = log_lines s @ [msg_request (page_url W Q (start s)), msg_status status (start s)])
   \<and> (page_count s + 1 \<le> max_pages Q
      \<and> http_get W (tick s) (page_url W Q (start s)) = RequestException m
    \<longrightarrow> crawl_loop P W Q s
          = (Inr (titles s, dates s, sources s, links s),
             do_log (msg_exception m) (issue_request W Q s))
        \<and> titles (snd (crawl_loop P W Q s)) = titles s \<and> dates (snd (crawl_loop P W Q s)) = dates s
        \<and> sources (snd (crawl_loop P W Q s)) = sources s \<and> links (snd (crawl_loop P W Q s)) = links s
        \<and> log_lines (snd (crawl_loop P W Q s))
            = log_lines s @ [msg_request (page_url W Q (start s)), msg_exception m])"
proof (intro conjI impI)
  assume h: "page_count s + 1 \<le> max_pages Q
      \<and> http_get W (tick s) (page_url W Q (start s)) = Response status body \<and> status \<noteq> 200"
  then have "crawl_page P W Q s
      = (Break, do_log (msg_status status (start s)) (issue_request W Q s))"
    using pass_status by blast
  from crawl_loop_Break [OF this]
  have r: "crawl_loop P W Q s
          = (Inr (titles s, dates s, sources s, links s),
             do_log (msg_status status (start s)) (issue_request W Q s))"
    by (simp add: do_log_fields issue_request_fields)
  show "crawl_loop P W Q s
          = (Inr (titles s, dates s, sources s, links s),
             do_log (msg_status status (start s)) (issue_request W Q s))" by (rule r)
  show "titles (snd (crawl_loop P W Q s)) = titles s" "dates (snd (crawl_loop P W Q s)) = dates s"
    "sources (snd (crawl_loop P W Q s)) = sources s" "links (snd (crawl_loop P W Q s)) = links s"
    "log_lines (snd (crawl_loop P W Q s))
            = log_lines s @ [msg_request (page_url W Q (start s)), msg_status status (start s)]"
    by (simp_all add: r do_log_fields issue_request_fields)
next
  assume h: "page_count s + 1 \<le> max_pages Q
      \<and> http_get W (tick s) (page_url W Q (start s)) = RequestException m"
  then have "crawl_page P W Q s = (Break, do_log (msg_exception m) (issue_request W Q s))"
    using pass_exception by blast
  from crawl_loop_Break [OF this]
  have r: "crawl_loop P W Q s
          = (Inr (titles s, dates s, sources s, links s),
             do_log (msg_exception m) (issue_request W Q s))"
    by (simp add: do_log_fields issue_request_fields)
  show "crawl_loop P W Q s
          = (Inr (titles s, dates s, sources s, links s),
             do_log (msg_exception m) (issue_request W Q s))" by (rule r)
  show "titles (snd (crawl_loop P W Q s)) = titles s" "dates (snd (crawl_loop P W Q s)) = dates s"
    "sources (snd (crawl_loop P W Q s)) = sources s" "links (snd (crawl_loop P W Q s)) = links s"
    "log_lines (snd (crawl_loop P W Q s))
            = log_lines s @ [msg_request (page_url W Q (start s)), msg_exception m]"
    by (simp_all add: r do_log_fields issue_request_fields)
qed

text \<open>
  A state that has accumulated one row, then a status 503, and then a timeout instead:
  the row is returned either way.
\<close>

definition one_row_state :: crawl_state where
  "one_row_state =
     (initial_state Map.empty 1)
       \<lparr>titles := [asc ''Title''], dates := [asc ''2024.03.07''], sources := [asc ''example''],
        links := [asc ''https://example.com/a''], seen_links := {asc ''https://example.com/a''},
        start := 11, page_count := 1\<rparr>"

theorem crawl_request_failure_witness:
  "fst (crawl_loop cpython311 (example_world (net_pages [])) example_query one_row_state)
     = Inr ([asc ''Title''], [asc ''2024.03.07''], [asc ''example''], [asc ''https://example.com/a''])
   \<and> fst (crawl_loop cpython311 (example_world (\<lambda>k url. RequestException (asc ''timeout'')))
           example_query one_row_state)
     = Inr ([asc ''Title''], [asc ''2024.03.07''], [asc ''example''], [asc ''https://example.com/a''])"
proof -
  let ?V = "example_world (net_pages [])"
  let ?X = "example_world (\<lambda>k url. RequestException (asc ''timeout''))"
  have h1: "page_count one_row_state + 1 \<le> max_pages example_query
      \<and> http_get ?V (tick one_row_state) (page_url ?V example_query (start one_row_state))
          = Response 503 [] \<and> (503 :: int) \<noteq> 200"
    by (simp add: one_row_state_def initial_state_def example_query_def example_http net_pages_simps)
  have h2: "page_count one_row_state + 1 \<le> max_pages example_query
      \<and> http_get ?X (tick one_row_state) (page_url ?X example_query (start one_row_state))
          = RequestException (asc ''timeout'')"
    by (simp add: one_row_state_def initial_state_def example_query_def example_http)
  have 1: "crawl_loop cpython311 ?V example_query one_row_state
          = (Inr (titles one_row_state, dates one_row_state, sources one_row_state,
                  links one_row_state),
             do_log (msg_status 503 (start one_row_state)) (issue_request ?V example_query one_row_state))"
    using crawl_request_failure [of one_row_state example_query ?V 503 "[]" cpython311] h1
    by blast
  have 2: "crawl_loop cpython311 ?X example_query one_row_state
          = (Inr (titles one_row_state, dates one_row_state, sources one_row_state,
                  links one_row_state),
             do_log (msg_exception (asc ''timeout'')) (issue_request ?X example_query one_row_state))"
    using crawl_request_failure [of one_row_state example_query ?X _ _ cpython311 "asc ''timeout''"] h2
    by blast
  show ?thesis
    by (simp add: 1 2) (simp add: one_row_state_def initial_state_def)
qed

text \<open>
  C8 (as amended). A page that is fetched with status 200 and yields no row ends the run,
  when the diagnostic file can be written (the file opens, the text of the response has
  no surrogate code point, and the text reaches the file): the pass writes the text of
  the response to the file \<^verbatim>\<open>debug_naver.html\<close>, whatever the file held before, leaves
  every other file alone, gives \<^verbatim>\<open>log\<close> the message, and \<^verbatim>\<open>crawl\<close> returns the lists as
  they were. A page with no container yields no row, without any request or reading of
  the clock by the extractor. So a run whose first page has no container returns four
  empty lists, with the file written, after exactly one request, when the file can be
  written.
\<close>

theorem crawl_no_rows:
  "(containers W (soup W body) = [] \<longrightarrow> parse_page P W body k = (Inr [], k))
   \<and> (page_count s + 1 \<le> max_pages Q
        \<and> http_get W (tick s) (page_url W Q (start s)) = Response 200 body
        \<and> fst (parse_page P W body (Suc (tick s))) = Inr []
        \<and> file_open W (Suc (tick s)) (asc ''debug_naver.html'') \<and> utf8_encodable body
        \<and> file_store W (Suc (tick s)) (asc ''debug_naver.html'') body = None
      \<longrightarrow> fst (crawl_loop P W Q s) = Inr (titles s, dates s, sources s, links s)
          \<and> files (snd (crawl_loop P W Q s)) = (files s)(asc ''debug_naver.html'' \<mapsto> body)
          \<and> requests (snd (crawl_loop P W Q s)) = requests s @ [page_url W Q (start s)]
          \<and> tick (snd (crawl_loop P W Q s)) = Suc (tick s)
          \<and> log_lines (snd (crawl_loop P W Q s))
              = log_lines s @ [msg_request (page_url W Q (start s)), msg_no_rows (start s)])
   \<and> (1 \<le> max_pages Q \<and> http_get W k (page_url W Q 1) = Response 200 body
        \<and> containers W (soup W body) = []
        \<and> file_open W (Suc k) (asc ''debug_naver.html'') \<and> utf8_encodable body
        \<and> file_store W (Suc k) (asc ''debug_naver.html'') body = None
      \<longrightarrow> fst (crawl P W Q fs k) = Inr ([], [], [], [])
          \<and> files (snd (crawl P W Q fs k)) = fs(asc ''debug_naver.html'' \<mapsto> body)
          \<and> requests (snd (crawl P W Q fs k)) = [page_url W Q 1]
          \<and> tick (snd (crawl P W Q fs k)) = Suc k)"
proof -
  have 1: "containers W (soup W body) = [] \<longrightarrow> parse_page P W body k = (Inr [], k)"
    using parse_page_no_containers by blast
  have 2: "page_count s + 1 \<le> max_pages Q
        \<and> http_get W (tick s) (page_url W Q (start s)) = Response 200 body
        \<and> fst (parse_page P W body (Suc (tick s))) = Inr []
        \<and> file_open W (Suc (tick s)) (asc ''debug_naver.html'') \<and> utf8_encodable body
        \<and> file_store W (Suc (tick s)) (asc ''debug_naver.html'') body = None
      \<longrightarrow> fst (crawl_loop P W Q s) = Inr (titles s, dates s, sources s, links s)
          \<and> files (snd (crawl_loop P W Q s)) = (files s)(asc ''debug_naver.html'' \<mapsto> body)
          \<and> requests (snd (crawl_loop P W Q s)) = requests s @ [page_url W Q (start s)]
          \<and> tick (snd (crawl_loop P W Q s)) = Suc (tick s)
          \<and> log_lines (snd (crawl_loop P W Q s))
              = log_lines s @ [msg_request (page_url W Q (start s)), msg_no_rows (start s)]"
    for s :: crawl_state
  proof
    assume h: "page_count s + 1 \<le> max_pages Q
        \<and> http_get W (tick s) (page_url W Q (start s)) = Response 200 body
        \<and> fst (parse_page P W body (Suc (tick s))) = Inr []
        \<and> file_open W (Suc (tick s)) (asc ''debug_naver.html'') \<and> utf8_encodable body
        \<and> file_store W (Suc (tick s)) (asc ''debug_naver.html'') body = None"
    obtain k' where pp: "parse_page P W body (Suc (tick s)) = (Inr [], k')"
      using h by (cases "parse_page P W body (Suc (tick s))") auto
    then have "parse_boxes P W (containers W (soup W body)) (Suc (tick s)) = (Inr [], k')"
      by (simp add: parse_page_def)
    from parse_boxes_rows [OF this] have k': "k' = Suc (tick s)" by simp
    have w: "write_text W k' (asc ''debug_naver.html'') body (files s)
               = (None, (files s)(asc ''debug_naver.html'' \<mapsto> body))"
      using h unfolding k' by (intro write_text_stored) simp_all
    from h pp have "crawl_page P W Q s
           = (Break, do_log (msg_no_rows (start s))
                ((issue_request W Q s)\<lparr>tick := k',
                    files := (files s)(asc ''debug_naver.html'' \<mapsto> body)\<rparr>))"
      using pass_no_rows [of s Q W body P k'] by (simp add: w)
    from crawl_loop_Break [OF this] k'
    show "fst (crawl_loop P W Q s) = Inr (titles s, dates s, sources s, links s)
          \<and> files (snd (crawl_loop P W Q s)) = (files s)(asc ''debug_naver.html'' \<mapsto> body)
          \<and> requests (snd (crawl_loop P W Q s)) = requests s @ [page_url W Q (start s)]
          \<and> tick (snd (crawl_loop P W Q s)) = Suc (tick s)
          \<and> log_lines (snd (crawl_loop P W Q s))
              = log_lines s @ [msg_request (page_url W Q (start s)), msg_no_rows (start s)]"
      by (simp add: do_log_fields issue_request_fields)
  qed
  have 3: "1 \<le> max_pages Q \<and> http_get W k (page_url W Q 1) = Response 200 body
        \<and> containers W (soup W body) = []
        \<and> file_open W (Suc k) (asc ''debug_naver.html'') \<and> utf8_encodable body
        \<and> file_store W (Suc k) (asc ''debug_naver.html'') body = None
      \<longrightarrow> fst (crawl P W Q fs k) = Inr ([], [], [], [])
          \<and> files (snd (crawl P W Q fs k)) = fs(asc ''debug_naver.html'' \<mapsto> body)
          \<and> requests (snd (crawl P W Q fs k)) = [page_url W Q 1]
          \<and> tick (snd (crawl P W Q fs k)) = Suc k"
  proof
    assume h: "1 \<le> max_pages Q \<and> http_get W k (page_url W Q 1) = Response 200 body
        \<and> containers W (soup W body) = []
        \<and> file_open W (Suc k) (asc ''debug_naver.html'') \<and> utf8_encodable body
        \<and> file_store W (Suc k) (asc ''debug_naver.html'') body = None"
    then have "parse_page P W body (Suc k) = (Inr [], Suc k)"
      using parse_page_no_containers by blast
    with h have "page_count (initial_state fs k) + 1 \<le> max_pages Q
        \<and> http_get W (tick (initial_state fs k)) (page_url W Q (start (initial_state fs k)))
            = Response 200 body
        \<and> fst (parse_page P W body (Suc (tick (initial_state fs k)))) = Inr []
        \<and> file_open W (Suc (tick (initial_state fs k))) (asc ''debug_naver.html'')
        \<and> utf8_encodable body
        \<and> file_store W (Suc (tick (initial_state fs k))) (asc ''debug_naver.html'') body = None"
      by (simp add: initial_state_def)
    from 2 [of "initial_state fs k", THEN mp, OF this]
    show "fst (crawl P W Q fs k) = Inr ([], [], [], [])
          \<and> files (snd (crawl P W Q fs k)) = fs(asc ''debug_naver.html'' \<mapsto> body)
          \<and> requests (snd (crawl P W Q fs k)) = [page_url W Q 1]
          \<and> tick (snd (crawl P W Q fs k)) = Suc k"
      by (simp add: crawl_def initial_state_def)
  qed
  from 1 2 [of s] 3 show ?thesis by blast
qed

text \<open>
  The claim as first stated, for every page with no container, fails on a response whose
  text cannot be encoded. The text of one lone surrogate (U+D800) has no container in the
  example; the file opens and is emptied, \<^verbatim>\<open>f.write\<close> raises \<^verbatim>\<open>UnicodeEncodeError\<close>,
  and \<^verbatim>\<open>crawl\<close> raises it in turn: no lists are returned and the file holds nothing of
  the response.
\<close>

theorem crawl_no_rows_unencodable:
  "containers (example_world (net_pages [[55296]])) (soup (example_world (net_pages [[55296]])) [55296])
     = []
   \<and> fst (crawl cpython311 (example_world (net_pages [[55296]])) example_query
          [asc ''debug_naver.html'' \<mapsto> asc ''old''] 0) = Inl UnicodeEncodeError
   \<and> files (snd (crawl cpython311 (example_world (net_pages [[55296]])) example_query
          [asc ''debug_naver.html'' \<mapsto> asc ''old''] 0)) (asc ''debug_naver.html'') = Some []"
proof -
  let ?V = "example_world (net_pages [[55296]])"
  have c: "containers ?V (soup ?V [55296]) = []"
    by (simp add: containers_def example_eval)
  have p: "parse_page cpython311 ?V [55296] k = (Inr [], k)" for k
    using c by (rule parse_page_no_containers)
  have o: "file_open ?V k name" for k name
    by (simp add: example_world_def)
  have w: "write_text ?V k name [55296] fs = (Some UnicodeEncodeError, fs(name \<mapsto> []))" for k name fs
    by (rule write_text_unencodable) (simp_all add: o utf8_encodable_def)
  show ?thesis
    by (simp add: c crawl_eval p w example_query_def)
qed

text \<open>
  A single page with no container, and a diagnostic file left by an earlier run: the new
  text replaces the old one.
\<close>

theorem crawl_no_rows_witness:
  "fst (crawl cpython311 (example_world (net_pages [asc ''Z''])) example_query
          [asc ''debug_naver.html'' \<mapsto> asc ''old''] 0) = Inr ([], [], [], [])
   \<and> files (snd (crawl cpython311 (example_world (net_pages [asc ''Z''])) example_query
          [asc ''debug_naver.html'' \<mapsto> asc ''old''] 0)) (asc ''debug_naver.html'') = Some (asc ''Z'')
   \<and> requests (snd (crawl cpython311 (example_world (net_pages [asc ''Z''])) example_query
          [asc ''debug_naver.html'' \<mapsto> asc ''old''] 0))
       = [page_url (example_world (net_pages [asc ''Z''])) example_query 1]
   \<and> tick (snd (crawl cpython311 (example_world (net_pages [asc ''Z''])) example_query
          [asc ''debug_naver.html'' \<mapsto> asc ''old''] 0)) = 1"
proof -
  let ?V = "example_world (net_pages [asc ''Z''])"
  let ?fs = "[asc ''debug_naver.html'' \<mapsto> asc ''old'']"
  have h: "1 \<le> max_pages example_query
        \<and> http_get ?V 0 (page_url ?V example_query 1) = Response 200 (asc ''Z'')
        \<and> containers ?V (soup ?V (asc ''Z'')) = []
        \<and> file_open ?V (Suc 0) (asc ''debug_naver.html'') \<and> utf8_encodable (asc ''Z'')
        \<and> file_store ?V (Suc 0) (asc ''debug_naver.html'') (asc ''Z'') = None"
    by (simp add: example_query_def example_http net_pages_simps example_containers)
       (simp add: example_world_def utf8_encodable_def asc_def)
  have "fst (crawl cpython311 ?V example_query ?fs 0) = Inr ([], [], [], [])
          \<and> files (snd (crawl cpython311 ?V example_query ?fs 0))
              = ?fs(asc ''debug_naver.html'' \<mapsto> asc ''Z'')
          \<and> requests (snd (crawl cpython311 ?V example_query ?fs 0)) = [page_url ?V example_query 1]
          \<and> tick (snd (crawl cpython311 ?V example_query ?fs 0)) = Suc 0"
    using crawl_no_rows [of ?V "asc ''Z''" cpython311 0 _ example_query ?fs] h
    by blast
  then show ?thesis by simp
qed

text \<open>
  C9. Every row that \<^verbatim>\<open>parse_page\<close> returns has a non-empty title and a non-empty link.
  A container for which \<^verbatim>\<open>_extract_title_from_card\<close> gives the empty string, whatever else
  it holds, and a container with no link element or with an empty \<^verbatim>\<open>href\<close>, yields no row:
  the rows of the page are those of the other containers.
\<close>

theorem parse_page_rows:
  "(parse_page P W html k = (Inr rows, k') \<longrightarrow> (\<forall>r\<in>set rows. Title r \<noteq> [] \<and> Link r \<noteq> []))
   \<and> (extract_title_from_card W box = [] \<longrightarrow>
        parse_box P W box k = (Inr None, k)
        \<and> parse_boxes P W (box # boxes) k = parse_boxes P W boxes k)
   \<and> (link_element W box = None \<or> (\<exists>a. link_element W box = Some a \<and> href_of W a = []) \<longrightarrow>
        parse_box P W box k = (Inr None, k)
        \<and> parse_boxes P W (box # boxes) k = parse_boxes P W boxes k)"
proof (intro conjI impI)
  assume "parse_page P W html k = (Inr rows, k')"
  then have "parse_boxes P W (containers W (soup W html)) k = (Inr rows, k')"
    by (simp add: parse_page_def)
  from parse_boxes_rows [OF this] show "\<forall>r\<in>set rows. Title r \<noteq> [] \<and> Link r \<noteq> []" by simp
next
  assume "extract_title_from_card W box = []"
  then show b: "parse_box P W box k = (Inr None, k)" by (rule parse_box_no_title)
  then show "parse_boxes P W (box # boxes) k = parse_boxes P W boxes k" by (rule parse_boxes_skip)
next
  assume "link_element W box = None \<or> (\<exists>a. link_element W box = Some a \<and> href_of W a = [])"
  then show b: "parse_box P W box k = (Inr None, k)" by (rule parse_box_no_link)
  then show "parse_boxes P W (box # boxes) k = parse_boxes P W boxes k" by (rule parse_boxes_skip)
qed

text \<open>
  The page B of the example: its first container has a publisher and a date but no title
  (and no link), and only the second container gives a row.
\<close>

theorem parse_page_rows_witness:
  "Title example_row \<noteq> [] \<and> Link example_row \<noteq> []
   \<and> parse_box cpython311 (example_world (net_pages [])) 20 0 = (Inr None, 0)
   \<and> parse_boxes cpython311 (example_world (net_pages [])) [20, 10] 0
       = parse_boxes cpython311 (example_world (net_pages [])) [10] 0
   \<and> fst (resolve_date cpython311 (example_world (net_pages [])) 20 (asc ''x'') 0)
       = Inr (asc ''2024.03.07'')
   \<and> extract_source_from_card (example_world (net_pages [])) 20 (asc ''x'') = asc ''Press''"
proof -
  let ?V = "example_world (net_pages [])"
  have p: "parse_page cpython311 ?V (asc ''B'') 0 = (Inr [example_row], 0)"
    by (rule example_page_B)
  have t: "extract_title_from_card ?V 20 = []" by (rule example_title_20)
  have l: "link_element ?V 20 = None \<or> (\<exists>a. link_element ?V 20 = Some a \<and> href_of ?V a = [])"
    by (simp add: link_element_def news_tit_link_def example_eval)
  note T = parse_page_rows [of cpython311 ?V "asc ''B''" 0 "[example_row]" 0 20 "[10]"]
  have 1: "\<forall>r\<in>set [example_row]. Title r \<noteq> [] \<and> Link r \<noteq> []"
    by (rule T [THEN conjunct1, THEN mp, OF p])
  have 2: "parse_box cpython311 ?V 20 0 = (Inr None, 0)
        \<and> parse_boxes cpython311 ?V [20, 10] 0 = parse_boxes cpython311 ?V [10] 0"
    by (rule T [THEN conjunct2, THEN conjunct1, THEN mp, OF t])
  have 3: "parse_box cpython311 ?V 20 0 = (Inr None, 0)
        \<and> parse_boxes cpython311 ?V [20, 10] 0 = parse_boxes cpython311 ?V [10] 0"
    by (rule T [THEN conjunct2, THEN conjunct2, THEN mp, OF l])
  have 4: "fst (resolve_date cpython311 ?V 20 (asc ''x'') 0) = Inr (asc ''2024.03.07'')"
    by (simp add: resolve_date_def or_else_def example_eval clean_text_def py_split_def
      is_space_def date_pat_at_def take_digits_2 take_digits_1 digits_1_2_def is_digit_def
      digit_value_def)
  have 5: "extract_source_from_card ?V 20 (asc ''x'') = asc ''Press''"
    by (simp add: extract_source_from_card_def example_eval clean_text_def py_split_def is_space_def)
  from 1 have row_ok: "Title example_row \<noteq> [] \<and> Link example_row \<noteq> []" by simp
  from row_ok 2 3 4 5 show ?thesis by simp
qed

section \<open>The entry points\<close>

text \<open>
  \<^verbatim>\<open>streamlit_main\<close>, from the submitted form to the outcome of \<^verbatim>\<open>crawl\<close>. The form gives
  the two dates as \<^verbatim>\<open>datetime.date\<close> values, which compare by year, month and day; the sort
  label is one of the three keys of \<^verbatim>\<open>SORT_OPTIONS\<close>. The model keeps the messages shown to
  the user and whether \<^verbatim>\<open>crawl\<close> ran (with its result and final state); the table and the
  spreadsheet made of a non-empty result are left out.
\<close>

datatype sort_label = Relevance | Newest | Oldest

definition SORT_OPTIONS :: "sort_label \<Rightarrow> int" where
  "SORT_OPTIONS l = (case l of Relevance \<Rightarrow> 0 | Newest \<Rightarrow> 1 | Oldest \<Rightarrow> 2)"

record form =
  search_term_input :: pystr
  start_date_input :: "int \<times> int \<times> int"
  end_date_input :: "int \<times> int \<times> int"
  sort_choice :: sort_label
  max_pages_input :: int
  submitted :: bool

definition date_after :: "int \<times> int \<times> int \<Rightarrow> int \<times> int \<times> int \<Rightarrow> bool" where
  "date_after a b =
     (case a of (y1, m1, d1) \<Rightarrow>
        (case b of (y2, m2, d2) \<Rightarrow>
           y2 < y1 \<or> (y1 = y2 \<and> (m2 < m1 \<or> (m1 = m2 \<and> d2 < d1)))))"

datatype shown = St_error_dates | St_error_crawl exn | St_warning_empty | St_success nat

type_synonym crawl_outcome =
  "(exn + pystr list \<times> pystr list \<times> pystr list \<times> pystr list) \<times> crawl_state"

definition query_of_form :: "platform \<Rightarrow> form \<Rightarrow> query" where
  "query_of_form P F =
     \<lparr>search_term = search_term_input F,
      start_date = fmt_Ymd P (start_date_input F),
      end_date = fmt_Ymd P (end_date_input F),
      sort_value = SORT_OPTIONS (sort_choice F),
      max_pages = max_pages_input F\<rparr>"

definition shown_after_crawl :: "crawl_outcome \<Rightarrow> shown list" where
  "shown_after_crawl out =
     (case fst out of
        Inl e \<Rightarrow> [St_error_crawl e]
      | Inr res \<Rightarrow>
          (case res of (t, d, so, l) \<Rightarrow> if t = [] then [St_warning_empty] else [St_success (length t)]))"

definition streamlit_main ::
  "platform \<Rightarrow> 'n world \<Rightarrow> form \<Rightarrow> (pystr \<rightharpoonup> pystr) \<Rightarrow> nat \<Rightarrow> shown list \<times> crawl_outcome option" where
  "streamlit_main P W F fs k =
     (if \<not> submitted F then ([], None)
      else if date_after (start_date_input F) (end_date_input F) then ([St_error_dates], None)
      else (shown_after_crawl (crawl P W (query_of_form P F) fs k),
            Some (crawl P W (query_of_form P F) fs k)))"

text \<open>The listing requests made by a run of \<^verbatim>\<open>streamlit_main\<close>.\<close>

definition requests_made :: "shown list \<times> crawl_outcome option \<Rightarrow> pystr list" where
  "requests_made r = (case snd r of None \<Rightarrow> [] | Some out \<Rightarrow> requests (snd out))"

section \<open>Claims about the configuration\<close>

text \<open>
  C7 (as amended). When the submitted form has a start date after its end date,
  \<^verbatim>\<open>streamlit_main\<close> shows the error and returns before it calls \<^verbatim>\<open>crawl\<close>: no request is
  made. The check is in \<^verbatim>\<open>streamlit_main\<close> only.
\<close>

theorem streamlit_main_rejects_range:
  "submitted F \<and> date_after (start_date_input F) (end_date_input F) \<longrightarrow>
     streamlit_main P W F fs k = ([St_error_dates], None)
     \<and> requests_made (streamlit_main P W F fs k) = []"
  by (simp add: streamlit_main_def requests_made_def)

text \<open>
  The claim as first stated spoke of every query. \<^verbatim>\<open>crawl\<close> itself has no check: called
  with the start date 2024.12.31 and the end date 2024.01.01 it makes its request.
\<close>

definition reversed_query :: query where
  "reversed_query =
     \<lparr>search_term = asc ''news'', start_date = asc ''2024.12.31'', end_date = asc ''2024.01.01'',
      sort_value = 2, max_pages = 5\<rparr>"

theorem crawl_reversed_range_requests:
  "requests (snd (crawl cpython311 (example_world (net_pages [])) reversed_query Map.empty 0))
     = [page_url (example_world (net_pages [])) reversed_query 1]
   \<and> start_date reversed_query = asc ''2024.12.31'' \<and> end_date reversed_query = asc ''2024.01.01''"
  by (simp add: crawl_eval reversed_query_def)

text \<open>The form with the dates 2024-12-31 and 2024-01-01.\<close>

definition reversed_form :: form where
  "reversed_form =
     \<lparr>search_term_input = asc ''news'', start_date_input = (2024, 12, 31),
      end_date_input = (2024, 1, 1), sort_choice = Oldest, max_pages_input = 5, submitted = True\<rparr>"

theorem streamlit_main_rejects_range_witness:
  "streamlit_main cpython311 (example_world (net_pages [asc ''A''])) reversed_form Map.empty 0
     = ([St_error_dates], None)
   \<and> requests_made
        (streamlit_main cpython311 (example_world (net_pages [asc ''A''])) reversed_form Map.empty 0)
       = []"
proof -
  have h: "submitted reversed_form
           \<and> date_after (start_date_input reversed_form) (end_date_input reversed_form)"
    by (simp add: reversed_form_def date_after_def)
  from streamlit_main_rejects_range
    [of reversed_form cpython311 "example_world (net_pages [asc ''A''])" Map.empty 0] h
  show ?thesis by blast
qed

end
